theory Spec2Isabelle
  imports Main "HOL-Library.Sublist" "HOL-Library.Multiset"
begin

section \<open>Go strings and maps\<close>

text \<open>
  Go strings are byte sequences: \<open>string\<close> (a \<open>char list\<close>). An error value is
  represented by its message.
\<close>

type_synonym err = string

text \<open>\<^verbatim>\<open>strings.Trim(s, cutset)\<close>: all leading and trailing bytes of \<open>cutset\<close> removed.\<close>

definition Trim :: "string \<Rightarrow> string \<Rightarrow> string" where
  "Trim s cutset =
     rev (dropWhile (\<lambda>c. c \<in> set cutset) (rev (dropWhile (\<lambda>c. c \<in> set cutset) s)))"

text \<open>
  \<^verbatim>\<open>strings.Split(s, sep)\<close> for a separator of one byte (the only use in the sources is
  \<^verbatim>\<open>"/"\<close>): the pieces between the separators, empty pieces kept; the empty string
  gives one empty piece.
\<close>

fun Split :: "string \<Rightarrow> char \<Rightarrow> string list" where
  "Split [] sep = [[]]"
| "Split (c # cs) sep =
     (if c = sep then [] # Split cs sep
      else (case Split cs sep of [] \<Rightarrow> [[c]] | p # ps \<Rightarrow> (c # p) # ps))"

text \<open>\<^verbatim>\<open>strings.Join(elems, sep)\<close>.\<close>

fun Join :: "string list \<Rightarrow> string \<Rightarrow> string" where
  "Join [] sep = []"
| "Join [x] sep = x"
| "Join (x # y # ys) sep = x @ sep @ Join (y # ys) sep"

text \<open>\<^verbatim>\<open>strings.Contains(s, substr)\<close> and \<^verbatim>\<open>strings.HasPrefix(s, prefix)\<close>.\<close>

fun Contains :: "string \<Rightarrow> string \<Rightarrow> bool" where
  "Contains [] substr = (substr = [])"
| "Contains (c # cs) substr = (prefix substr (c # cs) \<or> Contains cs substr)"

definition HasPrefix :: "string \<Rightarrow> string \<Rightarrow> bool" where
  "HasPrefix s p = prefix p s"

text \<open>
  Reading a \<^verbatim>\<open>map[string]bool\<close> at a key: the zero value \<^verbatim>\<open>false\<close> when the key is
  absent.
\<close>

definition map_get :: "(string \<rightharpoonup> bool) \<Rightarrow> string \<Rightarrow> bool" where
  "map_get m k = (case m k of None \<Rightarrow> False | Some v \<Rightarrow> v)"

section \<open>Link discovery\<close>

text \<open>
  What the browser session answers while \<^verbatim>\<open>discoverProductLinks\<close> runs its three
  chromedp actions: the navigation to the category page, the scroll script (evaluated
  once per iteration of the scroll loop, possibly failing at any iteration), and the
  final script that reads the \<^verbatim>\<open>href\<close> of every product-card anchor into \<^verbatim>\<open>links\<close>.
\<close>

record listing_page =
  navigate :: "string \<Rightarrow> err option"
  scroll :: "nat \<Rightarrow> err option"
  anchors :: "err + string list"

text \<open>
  The scroll loop \<^verbatim>\<open>for i := 0; i < scrolls; i++\<close>; the second argument is the index
  \<open>i\<close>, the third the number of iterations left.
\<close>

fun scroll_loop :: "listing_page \<Rightarrow> nat \<Rightarrow> nat \<Rightarrow> err option" where
  "scroll_loop page i 0 = None"
| "scroll_loop page i (Suc n) =
     (case scroll page i of Some e \<Rightarrow> Some e | None \<Rightarrow> scroll_loop page (Suc i) n)"

text \<open>
  The loop \<^verbatim>\<open>for _, link := range links\<close> over the raw anchors, with the map
  \<^verbatim>\<open>uniqueLinks\<close> and the slice \<^verbatim>\<open>result\<close> it appends to.
\<close>

fun dedupe_loop :: "string list \<Rightarrow> (string \<rightharpoonup> bool) \<Rightarrow> string list \<Rightarrow> string list" where
  "dedupe_loop [] uniqueLinks result = result"
| "dedupe_loop (link # links) uniqueLinks result =
     (if \<not> map_get uniqueLinks link
      then dedupe_loop links (uniqueLinks(link \<mapsto> True)) (result @ [link])
      else dedupe_loop links uniqueLinks result)"

definition scrolls :: nat where
  "scrolls = 5"

definition discoverProductLinks :: "listing_page \<Rightarrow> string \<Rightarrow> err + string list" where
  "discoverProductLinks page url =
     (case navigate page url of
        Some e \<Rightarrow> Inl e
      | None \<Rightarrow>
          (case scroll_loop page 0 scrolls of
             Some e \<Rightarrow> Inl e
           | None \<Rightarrow>
               (case anchors page of
                  Inl e \<Rightarrow> Inl e
                | Inr links \<Rightarrow> Inr (dedupe_loop links Map.empty []))))"

text \<open>
  The position of the first occurrence of \<open>x\<close> in \<open>xs\<close> (the length of \<open>xs\<close> when
  there is none): the yardstick for "first-seen order".
\<close>

definition first_index :: "string list \<Rightarrow> string \<Rightarrow> nat" where
  "first_index xs x = length (takeWhile (\<lambda>y. y \<noteq> x) xs)"

text \<open>A listing page for the examples: three anchors, one of them a duplicate.\<close>

definition sample_listing :: listing_page where
  "sample_listing =
     \<lparr>navigate = (\<lambda>u. None), scroll = (\<lambda>i. None),
      anchors = Inr [''https://shop.adidas.jp/products/A1/'',
                     ''https://shop.adidas.jp/products/B2/'',
                     ''https://shop.adidas.jp/products/A1/'']\<rparr>"

section \<open>The product page scraper\<close>

text \<open>The record \<^verbatim>\<open>Product\<close> of the chromedp scraper, and its zero value \<^verbatim>\<open>Product{}\<close>.\<close>

record Product =
  URL :: string
  Name :: string
  ProductID :: string
  Price :: string
  ImageURL :: string
  Breadcrumb :: string
  DescriptionGeneral :: string
  DescriptionTitle :: string
  DescriptionItemized :: string
  AvailableSizes :: string
  SenseOfSize :: string
  Keywords :: string
  SizeChartJSON :: string
  ReviewsJSON :: string
  OverallRating :: string
  NumberOfReviews :: string
  RecommendedRate :: string
  CoordinatedProductsJSON :: string

definition zero_Product :: Product where
  "zero_Product =
     \<lparr>URL = [], Name = [], ProductID = [], Price = [], ImageURL = [], Breadcrumb = [],
      DescriptionGeneral = [], DescriptionTitle = [], DescriptionItemized = [],
      AvailableSizes = [], SenseOfSize = [], Keywords = [],
      SizeChartJSON = [], ReviewsJSON = [], OverallRating = [], NumberOfReviews = [],
      RecommendedRate = [], CoordinatedProductsJSON = []\<rparr>"

text \<open>
  The chromedp actions \<^verbatim>\<open>scrapeProductPage\<close> uses, by selector, attribute name or script.
  The browser session is the external collaborator: for each action it answers with an
  error or with the text the action reads (ignored by the actions that read nothing).
  The actions of one call are pairwise different, so a function of the action describes
  every possible course of one call, a deadline that expires at some step included.
\<close>

datatype action =
    Navigate string
  | WaitReady string
  | Text string
  | AttributeValue string string
  | Evaluate string
  | Click string
  | WaitVisible string

type_synonym browser = "action \<Rightarrow> err + string"

text \<open>
  The variables of \<^verbatim>\<open>scrapeProductPage\<close> that the actions write through pointers:
  \<^verbatim>\<open>p\<close> and the three raw JSON strings.
\<close>

record locals =
  p_var :: Product
  sizeChartRaw :: string
  reviewsRaw :: string
  coordinatedRaw :: string

text \<open>A task is an action with the assignment to its destination.\<close>

type_synonym task = "action \<times> (string \<Rightarrow> locals \<Rightarrow> locals)"

text \<open>
  \<^verbatim>\<open>chromedp.Run(ctx, actions...)\<close>: the actions in order, stopping at the first error.
  The result is the error (if any), the variables as the actions performed so far left
  them, and the list of the actions the browser was asked to perform.
\<close>

fun Run :: "browser \<Rightarrow> task list \<Rightarrow> locals \<Rightarrow> err option \<times> locals \<times> action list" where
  "Run b [] v = (None, v, [])"
| "Run b ((a, dst) # ts) v =
     (case b a of
        Inl e \<Rightarrow> (Some e, v, [a])
      | Inr s \<Rightarrow> (case Run b ts (dst s v) of (e, v', performed) \<Rightarrow> (e, v', a # performed)))"

definition no_dest :: "string \<Rightarrow> locals \<Rightarrow> locals" where
  "no_dest s v = v"

definition sizeChartScript :: string where
  \<open>sizeChartScript =
     ''(() => { const table = document.querySelector('.p-size-chart__table ta'' @
     ''ble'); if (!table) return null; const headers = Array.from(table.query'' @
     ''SelectorAll('thead th')).map(th => th.innerText.trim()); const rows = '' @
     ''Array.from(table.querySelectorAll('tbody tr')).map(tr => { const rowDa'' @
     ''ta = {}; Array.from(tr.querySelectorAll('td')).forEach((td, i) => { co'' @
     ''nst header = headers[i]; if (header) rowData[header] = td.innerText.tr'' @
     ''im(); }); return rowData; }); return JSON.stringify(rows); })();''\<close>

definition reviewsScript :: string where
  \<open>reviewsScript =
     ''(() => { const reviews = []; document.querySelectorAll('.BVRRDisplayCo'' @
     ''ntentReview').forEach(el => { reviews.push({ rating: el.querySelector('' @
     '''.BVRRRatingNumber')?.innerText.trim(), title: el.querySelector('.BVRR'' @
     ''ValueTitle')?.innerText.trim(), date: el.querySelector('.BVRRValueDate'' @
     ''')?.innerText.trim(), reviewer: el.querySelector('.BVRRValueNickname')'' @
     ''?.innerText.trim(), description: el.querySelector('.BVRRReviewTextCont'' @
     ''ainer')?.innerText.trim() }); }); return JSON.stringify(reviews); })()'' @
     '';''\<close>

definition coordinatedProductsScript :: string where
  \<open>coordinatedProductsScript =
     ''(() => { const items = []; document.querySelectorAll('.p-coordinated-i'' @
     ''tems__list-item a').forEach(el => { items.push({ name: el.querySelecto'' @
     ''r('.p-coordinated-items__name')?.innerText.trim(), price: el.querySele'' @
     ''ctor('.c-price__value')?.innerText.trim(), url: el.href, imageUrl: el.'' @
     ''querySelector('img')?.src }); }); return JSON.stringify(items); })();''\<close>

text \<open>The argument list of \<^verbatim>\<open>chromedp.Run\<close> in \<^verbatim>\<open>scrapeProductPage\<close>.\<close>

definition tasks :: "string \<Rightarrow> task list" where
  \<open>tasks url =
    [(Navigate url, no_dest),
     (WaitReady ''h1.p-article__name'', no_dest),
     (Text ''h1.p-article__name'', \<lambda>s v. v\<lparr>p_var := (p_var v)\<lparr>Name := s\<rparr>\<rparr>),
     (Text ''.p-article__breadcrumb'', \<lambda>s v. v\<lparr>p_var := (p_var v)\<lparr>Breadcrumb := s\<rparr>\<rparr>),
     (Text ''.p-price-group__price-item .c-price__value'',
        \<lambda>s v. v\<lparr>p_var := (p_var v)\<lparr>Price := s\<rparr>\<rparr>),
     (Text ''.c-description__title'', \<lambda>s v. v\<lparr>p_var := (p_var v)\<lparr>DescriptionTitle := s\<rparr>\<rparr>),
     (Text ''.c-description__text'', \<lambda>s v. v\<lparr>p_var := (p_var v)\<lparr>DescriptionGeneral := s\<rparr>\<rparr>),
     (Text ''[data-test-id="pdp-description-itemized"]'',
        \<lambda>s v. v\<lparr>p_var := (p_var v)\<lparr>DescriptionItemized := s\<rparr>\<rparr>),
     (Text ''[data-test-id="sense-of-size-info"]'',
        \<lambda>s v. v\<lparr>p_var := (p_var v)\<lparr>SenseOfSize := s\<rparr>\<rparr>),
     (Text ''[data-test-id="reviews-overall-rating"]'',
        \<lambda>s v. v\<lparr>p_var := (p_var v)\<lparr>OverallRating := s\<rparr>\<rparr>),
     (Text ''[data-test-id="reviews-number-of-reviews"]'',
        \<lambda>s v. v\<lparr>p_var := (p_var v)\<lparr>NumberOfReviews := s\<rparr>\<rparr>),
     (Text ''[data-test-id="reviews-recommended-rate"]'',
        \<lambda>s v. v\<lparr>p_var := (p_var v)\<lparr>RecommendedRate := s\<rparr>\<rparr>),
     (AttributeValue ''.c-article-image__img'' ''src'',
        \<lambda>s v. v\<lparr>p_var := (p_var v)\<lparr>ImageURL := s\<rparr>\<rparr>),
     (Evaluate (''Array.from(document.querySelectorAll('.p-size-selector__item-button'))'' @
                ''.map(btn => btn.innerText.trim()).join(', ')''),
        \<lambda>s v. v\<lparr>p_var := (p_var v)\<lparr>AvailableSizes := s\<rparr>\<rparr>),
     (Evaluate (''Array.from(document.querySelectorAll('.p-tags__list-item-link'))'' @
                ''.map(a => a.innerText.trim()).join(', ')''),
        \<lambda>s v. v\<lparr>p_var := (p_var v)\<lparr>Keywords := s\<rparr>\<rparr>),
     (Evaluate coordinatedProductsScript, \<lambda>s v. v\<lparr>coordinatedRaw := s\<rparr>),
     (Evaluate reviewsScript, \<lambda>s v. v\<lparr>reviewsRaw := s\<rparr>),
     (Click ''.p-size-chart__link'', no_dest),
     (WaitVisible ''.p-size-chart__table'', no_dest),
     (Evaluate sizeChartScript, \<lambda>s v. v\<lparr>sizeChartRaw := s\<rparr>)]\<close>

text \<open>
  The product identifier, as \<^verbatim>\<open>scrapeProductPage\<close> computes it before any browser
  action: \<^verbatim>\<open>urlParts := strings.Split(strings.Trim(url, "/"), "/")\<close>, then the last
  element when \<^verbatim>\<open>len(urlParts) > 0\<close> (the zero value \<^verbatim>\<open>""\<close> otherwise).
\<close>

definition deriveProductID :: "string \<Rightarrow> string" where
  "deriveProductID url =
     (let urlParts = Split (Trim url ''/'') CHR ''/''
      in if length urlParts > 0 then urlParts ! (length urlParts - 1) else [])"

text \<open>
  \<^verbatim>\<open>scrapeProductPage\<close> returns the pair \<^verbatim>\<open>(Product, error)\<close>; the third component is
  the list of browser actions the call performed.
\<close>

definition scrapeProductPage :: "browser \<Rightarrow> string \<Rightarrow> Product \<times> err option \<times> action list" where
  "scrapeProductPage b url =
     (let p = zero_Product\<lparr>URL := url, ProductID := deriveProductID url\<rparr>;
          v = \<lparr>p_var = p, sizeChartRaw = [], reviewsRaw = [], coordinatedRaw = []\<rparr>
      in case Run b (tasks url) v of
           (Some e, v', performed) \<Rightarrow>
             (zero_Product, Some (''browser actions failed: '' @ e), performed)
         | (None, v', performed) \<Rightarrow>
             ((p_var v')\<lparr>SizeChartJSON := sizeChartRaw v',
                        ReviewsJSON := reviewsRaw v',
                        CoordinatedProductsJSON := coordinatedRaw v'\<rparr>,
              None, performed))"

text \<open>
  A URL by its components, and the string they make up: the yardstick for "the last
  non-empty segment of the URL's path". The path is everything between the authority
  and the query.
\<close>

record url_parts =
  url_scheme :: string
  url_authority :: string
  url_path :: string
  url_query :: "string option"
  url_fragment :: "string option"

definition render_url :: "url_parts \<Rightarrow> string" where
  "render_url u =
     url_scheme u @ ''://'' @ url_authority u @ url_path u
       @ (case url_query u of None \<Rightarrow> [] | Some q \<Rightarrow> CHR ''?'' # q)
       @ (case url_fragment u of None \<Rightarrow> [] | Some f \<Rightarrow> CHR ''#'' # f)"

definition delimiter_free :: "string \<Rightarrow> bool" where
  "delimiter_free s = (list_all (\<lambda>c. c \<noteq> CHR ''/'' \<and> c \<noteq> CHR ''?'' \<and> c \<noteq> CHR ''#'') s)"

definition valid_url :: "url_parts \<Rightarrow> bool" where
  "valid_url u =
     (url_scheme u \<noteq> [] \<and> delimiter_free (url_scheme u)
      \<and> url_authority u \<noteq> [] \<and> delimiter_free (url_authority u)
      \<and> (url_path u = [] \<or> hd (url_path u) = CHR ''/'')
      \<and> list_all (\<lambda>c. c \<noteq> CHR ''?'' \<and> c \<noteq> CHR ''#'') (url_path u)
      \<and> (case url_query u of None \<Rightarrow> True | Some q \<Rightarrow> list_all (\<lambda>c. c \<noteq> CHR ''#'') q))"

definition last_nonempty_segment :: "string \<Rightarrow> string option" where
  "last_nonempty_segment path =
     (let segments = filter (\<lambda>s. s \<noteq> []) (Split path CHR ''/'')
      in if segments = [] then None else Some (last segments))"

text \<open>Browsers and URLs for the examples.\<close>

definition browser_ok :: browser where
  "browser_ok a = Inr ''text''"

definition browser_no_size_chart :: browser where
  "browser_no_size_chart a =
     (if a = Click ''.p-size-chart__link'' then Inl ''context deadline exceeded''
      else Inr ''text'')"

definition browser_not_ready :: browser where
  "browser_not_ready a =
     (if a = WaitReady ''h1.p-article__name'' then Inl ''context deadline exceeded''
      else Inr ''text'')"

definition url_with_query :: url_parts where
  "url_with_query =
     \<lparr>url_scheme = ''https'', url_authority = ''shop.adidas.jp'',
      url_path = ''/products/12345/'', url_query = Some ''color=red'',
      url_fragment = None\<rparr>"

definition url_with_fragment :: url_parts where
  "url_with_fragment =
     \<lparr>url_scheme = ''https'', url_authority = ''shop.adidas.jp'',
      url_path = ''/products/12345'', url_query = None, url_fragment = Some ''reviews''\<rparr>"

definition url_plain :: url_parts where
  "url_plain =
     \<lparr>url_scheme = ''https'', url_authority = ''shop.adidas.jp'',
      url_path = ''/products/12345/'', url_query = None, url_fragment = None\<rparr>"


section \<open>The remote renderer path\<close>

text \<open>
  The structs of the ZenRows path. A field whose name another record or a constructor of
  this theory already uses carries a suffix (\<open>URL_xhr\<close>, \<open>Name_pd\<close>,
  \<open>Text_bc\<close>, \<open>Link_bc\<close>). The type parameter \<open>'f\<close> stands for \<^verbatim>\<open>float64\<close>.
\<close>

record XHRResponse =
  URL_xhr :: string
  Body :: string

record ZenRowsOverallResponse =
  HTML :: string
  XHR :: "XHRResponse list"

record Breadcrumb =
  Text_bc :: string
  Link_bc :: string
  Type_bc :: string

record 'f ProductPricing =
  CurrentPrice :: 'f

record 'f ProductDetails =
  ArticleNumber :: string
  Name_pd :: string
  Category :: string
  Link :: string
  ImageLink :: string
  SubTitle :: string
  Sizes :: "string list"
  Sport :: string
  Surface :: "string list"
  Brand :: string
  Pricing :: "'f ProductPricing"

text \<open>
  The collaborators of the ZenRows path: the file system, \<^verbatim>\<open>encoding/json\<close>,
  \<^verbatim>\<open>fmt.Sprintf("%.2f", _)\<close> and the CSV writer. \<open>write_row n row\<close> is the result of
  the \<open>n\<close>-th call of \<^verbatim>\<open>writer.Write\<close>. \<open>unmarshal_products\<close> decodes a body into the
  anonymous struct with the keys \<^verbatim>\<open>recommendations\<close> and \<^verbatim>\<open>json_breadcrumbs\<close>.
\<close>

record 'f env =
  open_file :: "string \<Rightarrow> err option"
  read_all :: "string \<Rightarrow> err + string"
  unmarshal_capture :: "string \<Rightarrow> err + ZenRowsOverallResponse"
  unmarshal_products :: "string \<Rightarrow> err + ('f ProductDetails list \<times> Breadcrumb list)"
  sprintf_2f :: "'f \<Rightarrow> string"
  mkdir_all :: "string \<Rightarrow> err option"
  create_file :: "string \<Rightarrow> err option"
  write_row :: "nat \<Rightarrow> string list \<Rightarrow> err option"

text \<open>The loop \<^verbatim>\<open>for _, xhrItem := range zenRowsResp.XHR\<close> of \<^verbatim>\<open>getProductDataFromFile\<close>.\<close>

fun scan_xhr :: "'f env \<Rightarrow> XHRResponse list
    \<Rightarrow> ('f ProductDetails list \<times> Breadcrumb list) option" where
  "scan_xhr env [] = None"
| "scan_xhr env (xhrItem # rest) =
     (if Contains (URL_xhr xhrItem) ''recs/api/products''
      then (case unmarshal_products env (Body xhrItem) of
              Inr recommendationsAndBreadcrumbs \<Rightarrow> Some recommendationsAndBreadcrumbs
            | Inl e \<Rightarrow> scan_xhr env rest)
      else scan_xhr env rest)"

text \<open>
  \<^verbatim>\<open>getProductDataFromFile\<close>. In the message of the unmarshalling error, \<^verbatim>\<open>rawBody[:50]\<close>
  reads into the buffer's capacity when the file is shorter than 50 bytes (the buffer of
  \<^verbatim>\<open>io.ReadAll\<close> has at least 512 zeroed bytes).
\<close>

definition getProductDataFromFile :: "'f env \<Rightarrow> string
    \<Rightarrow> err + ('f ProductDetails list \<times> Breadcrumb list)" where
  "getProductDataFromFile env filename =
     (case open_file env filename of
        Some e \<Rightarrow> Inl (''failed to open file '' @ filename @ '': '' @ e)
      | None \<Rightarrow>
          (case read_all env filename of
             Inl e \<Rightarrow> Inl (''failed to read file content: '' @ e)
           | Inr rawBody \<Rightarrow>
               (case unmarshal_capture env rawBody of
                  Inl e \<Rightarrow>
                    Inl (''failed to unmarshal JSON from file: '' @ e
                         @ ''. Raw Content Start: ''
                         @ take 50 (rawBody @ replicate 50 (CHR 0x00)) @ ''...'')
                | Inr zenRowsResp \<Rightarrow>
                    (case scan_xhr env (XHR zenRowsResp) of
                       Some found \<Rightarrow> Inr found
                     | None \<Rightarrow>
                         Inl (''no product data found in the XHR bodies with ''
                              @ [CHR 0x27] @ ''recs/api/products'' @ [CHR 0x27]
                              @ '' URL in the file'')))))"

text \<open>The CSV header and the row of one product, as \<^verbatim>\<open>ProcessJSONAndWriteToCSV\<close> builds them.\<close>

definition header :: "string list" where
  "header = [''ID'', ''URL'', ''ProductName'', ''Category'', ''Price'', ''ImageURL'',
             ''AvailableSizes'', ''SizeDetails'', ''Description'', ''Keywords'',
             ''Breadcrumbs'']"

definition breadcrumbs_string :: "Breadcrumb list \<Rightarrow> string" where
  "breadcrumbs_string breadcrumbs =
     (if length breadcrumbs > 0 then Join (map Text_bc breadcrumbs) '' > '' else [])"

definition product_row :: "'f env \<Rightarrow> string \<Rightarrow> 'f ProductDetails \<Rightarrow> string list" where
  "product_row env breadcrumbsString product =
     (let id = (if ArticleNumber product = [] then ''N/A'' else ArticleNumber product);
          fullURL = (if \<not> HasPrefix (Link product) ''http''
                     then ''https://www.adidas.jp'' @ Link product else Link product);
          productName = (if Name_pd product = [] then ''N/A'' else Name_pd product);
          category = (if Category product = [] then ''N/A'' else Category product);
          price = sprintf_2f env (CurrentPrice (Pricing product));
          imageURL = (if ImageLink product = [] then ''N/A'' else ImageLink product);
          availableSizes = (if Join (Sizes product) '', '' = [] then ''N/A''
                            else Join (Sizes product) '', '');
          description = (if SubTitle product = [] then ''N/A'' else SubTitle product);
          keywords = (if Sport product \<noteq> [] then [Sport product] else [])
                     @ (if length (Surface product) > 0 then Surface product else [])
                     @ (if Brand product \<noteq> [] then [Brand product] else [])
                     @ (if Category product \<noteq> [] then [Category product] else []);
          keywordsString = (if Join keywords '', '' = [] then ''N/A'' else Join keywords '', '')
      in [id, fullURL, productName, category, price, imageURL, availableSizes,
          availableSizes, description, keywordsString, breadcrumbsString])"

text \<open>
  The loop over the products: the rows that reach the file. A row whose write fails is
  logged and skipped. The second argument counts the calls of \<^verbatim>\<open>writer.Write\<close>.
\<close>

fun write_rows :: "'f env \<Rightarrow> nat \<Rightarrow> string list list \<Rightarrow> string list list" where
  "write_rows env n [] = []"
| "write_rows env n (row # rows) =
     (case write_row env n row of
        Some e \<Rightarrow> write_rows env (Suc n) rows
      | None \<Rightarrow> row # write_rows env (Suc n) rows)"

text \<open>
  \<^verbatim>\<open>ProcessJSONAndWriteToCSV\<close>: the returned error and the rows written to
  \<^verbatim>\<open>csv/products.csv\<close>, the header first.
\<close>

definition ProcessJSONAndWriteToCSV :: "'f env \<Rightarrow> string \<Rightarrow> err option \<times> string list list" where
  "ProcessJSONAndWriteToCSV env jsonFileName =
     (case getProductDataFromFile env jsonFileName of
        Inl e \<Rightarrow> (Some (''failed to get product data from file: '' @ e), [])
      | Inr (products, breadcrumbs) \<Rightarrow>
          if length products = 0 then (None, [])
          else (case mkdir_all env ''csv'' of
                  Some e \<Rightarrow> (Some (''failed to create '' @ [CHR 0x27] @ ''csv'' @ [CHR 0x27]
                                     @ '' directory: '' @ e), [])
                | None \<Rightarrow>
                    (case create_file env ''csv/products.csv'' of
                       Some e \<Rightarrow>
                         (Some (''failed to create CSV file csv/products.csv: '' @ e), [])
                     | None \<Rightarrow>
                         (case write_row env 0 header of
                            Some e \<Rightarrow> (Some (''failed to write CSV header: '' @ e), [])
                          | None \<Rightarrow>
                              (None,
                               header # write_rows env 1
                                 (map (product_row env (breadcrumbs_string breadcrumbs))
                                    products))))))"

text \<open>A capture for the examples: the data entry is the second of three exchanges.\<close>

definition sample_products :: "nat ProductDetails list" where
  "sample_products =
     [\<lparr>ArticleNumber = ''IE3437'', Name_pd = ''Samba OG'', Category = ''Shoes'',
       Link = ''/products/IE3437/'', ImageLink = ''https://img/IE3437.jpg'',
       SubTitle = ''Originals'', Sizes = [''26.0cm'', ''26.5cm''], Sport = ''Lifestyle'',
       Surface = [], Brand = ''Originals'', Pricing = \<lparr>CurrentPrice = 15400\<rparr>\<rparr>,
      \<lparr>ArticleNumber = ''JI1234'', Name_pd = ''Cap'', Category = [],
       Link = ''https://www.adidas.jp/products/JI1234/'', ImageLink = [],
       SubTitle = [], Sizes = [], Sport = [],
       Surface = [], Brand = [], Pricing = \<lparr>CurrentPrice = 3300\<rparr>\<rparr>]"

definition sample_env :: "nat env" where
  "sample_env =
     \<lparr>open_file = (\<lambda>f. None),
      read_all = (\<lambda>f. Inr ''capture''),
      unmarshal_capture = (\<lambda>raw. Inr \<lparr>HTML = ''<html></html>'',
         XHR = [\<lparr>URL_xhr = ''https://shop.adidas.jp/f/v1/pub/config'', Body = ''{}''\<rparr>,
                \<lparr>URL_xhr = ''https://shop.adidas.jp/recs/api/products?page=men'',
                 Body = ''data''\<rparr>,
                \<lparr>URL_xhr = ''https://shop.adidas.jp/f/v1/pub/banner'', Body = ''{}''\<rparr>]\<rparr>),
      unmarshal_products = (\<lambda>body. if body = ''data''
         then Inr (sample_products, [\<lparr>Text_bc = ''Home'', Link_bc = ''/'', Type_bc = ''home''\<rparr>,
                                     \<lparr>Text_bc = ''Men'', Link_bc = ''/men/'', Type_bc = ''category''\<rparr>])
         else Inl ''cannot unmarshal''),
      sprintf_2f = (\<lambda>n. if n = 15400 then ''15400.00'' else ''3300.00''),
      mkdir_all = (\<lambda>d. None),
      create_file = (\<lambda>f. None),
      write_row = (\<lambda>n row. None)\<rparr>"

section \<open>The CSV output of the browser path\<close>

text \<open>The header and the row of one product, as \<^verbatim>\<open>writeCSV\<close> builds them.\<close>

definition headers :: "string list" where
  "headers =
     [''URL'', ''ProductID'', ''Name'', ''Price'', ''ImageURL'', ''Breadcrumb'',
      ''DescriptionGeneral'', ''DescriptionTitle'', ''DescriptionItemized'',
      ''AvailableSizes'', ''SenseOfSize'', ''Keywords'',
      ''SizeChartJSON'', ''ReviewsJSON'', ''OverallRating'', ''NumberOfReviews'',
      ''RecommendedRate'', ''CoordinatedProductsJSON'']"

definition row :: "Product \<Rightarrow> string list" where
  "row p =
     [URL p, ProductID p, Name p, Price p, ImageURL p, Breadcrumb p,
      DescriptionGeneral p, DescriptionTitle p, DescriptionItemized p,
      AvailableSizes p, SenseOfSize p, Keywords p,
      SizeChartJSON p, ReviewsJSON p, OverallRating p, NumberOfReviews p,
      RecommendedRate p, CoordinatedProductsJSON p]"

text \<open>
  The collaborators of \<^verbatim>\<open>writeCSV\<close>: directory and file creation and the CSV writer
  (\<open>csv_write n r\<close> is the result of the \<open>n\<close>-th call of \<^verbatim>\<open>writer.Write\<close>).
\<close>

record csv_sink =
  sink_mkdir_all :: "string \<Rightarrow> err option"
  sink_create :: "string \<Rightarrow> err option"
  csv_write :: "nat \<Rightarrow> string list \<Rightarrow> err option"

fun write_products :: "csv_sink \<Rightarrow> nat \<Rightarrow> Product list \<Rightarrow> string list list" where
  "write_products sink n [] = []"
| "write_products sink n (p # products) =
     (case csv_write sink n (row p) of
        Some e \<Rightarrow> write_products sink (Suc n) products
      | None \<Rightarrow> row p # write_products sink (Suc n) products)"

text \<open>
  \<^verbatim>\<open>writeCSV\<close>: \<open>Inl\<close> is the message of \<^verbatim>\<open>log.Fatalf\<close> (the process exits), \<open>Inr\<close> the
  rows written to \<^verbatim>\<open>data/products.csv\<close>.
\<close>

definition writeCSV :: "csv_sink \<Rightarrow> Product list \<Rightarrow> err + string list list" where
  "writeCSV sink products =
     (case sink_mkdir_all sink ''data'' of
        Some e \<Rightarrow> Inl (''Failed to create data directory: '' @ e)
      | None \<Rightarrow>
          (case sink_create sink ''data/products.csv'' of
             Some e \<Rightarrow> Inl (''Failed to create CSV file: '' @ e)
           | None \<Rightarrow>
               (case csv_write sink 0 headers of
                  Some e \<Rightarrow> Inl (''Failed to write CSV headers: '' @ e)
                | None \<Rightarrow> Inr (headers # write_products sink 1 products))))"

text \<open>
  An exchange the scan of \<^verbatim>\<open>getProductDataFromFile\<close> stops at: its URL contains the
  endpoint pattern and its body decodes without error.
\<close>

definition is_data_entry :: "'f env \<Rightarrow> XHRResponse \<Rightarrow> bool" where
  "is_data_entry env x =
     (Contains (URL_xhr x) ''recs/api/products'' \<and> \<not> isl (unmarshal_products env (Body x)))"

section \<open>The worker pool\<close>

definition startURL :: string where
  "startURL = ''https://shop.adidas.jp/men/''"

definition numWorkers :: nat where
  "numWorkers = 4"

definition productTarget :: nat where
  "productTarget = 250"

text \<open>
  The pool of \<^verbatim>\<open>Start\<close> runs the main goroutine and the workers concurrently. Its model is
  an interleaving of atomic steps on a shared state; a schedule (a list of events) says
  which goroutine moves next, and for a worker about to scrape, what the browser answers
  during that call.

  Where the main goroutine stands: \<open>MSpawn i\<close> at the head of the loop that starts the
  workers (\<^verbatim>\<open>i <= numWorkers\<close> not yet tested), \<open>MGo i\<close> between \<^verbatim>\<open>wg.Add(1)\<close> and
  \<^verbatim>\<open>go worker(i, ...)\<close>, \<open>MEnqueue i\<close> at the head of the loop over \<^verbatim>\<open>productLinks\<close>
  with index \<open>i\<close>, then before \<^verbatim>\<open>close(jobs)\<close>, \<^verbatim>\<open>wg.Wait()\<close>, \<^verbatim>\<open>close(results)\<close>, in the
  loop \<^verbatim>\<open>for product := range results\<close>, and past it (where \<^verbatim>\<open>finalProducts\<close> goes to
  \<^verbatim>\<open>writeCSV\<close>).
\<close>

datatype main_pc =
    MSpawn nat
  | MGo nat
  | MEnqueue nat
  | MCloseJobs
  | MWait
  | MCloseResults
  | MDrain
  | MDone

text \<open>
  Where a worker stands: at \<^verbatim>\<open>for url := range jobs\<close>, about to call
  \<^verbatim>\<open>scrapeProductPage\<close> on a URL it received, about to send a product on \<^verbatim>\<open>results\<close>, or
  returned (its deferred \<^verbatim>\<open>wg.Done()\<close> has run).
\<close>

datatype worker_pc =
    WRange
  | WScrape string
  | WSend Product
  | WExited

text \<open>The three log lines of \<^verbatim>\<open>worker\<close>, with the worker's id and the URL.\<close>

datatype log_line =
    LogScraping nat string
  | LogError nat string err
  | LogSuccess nat string string

text \<open>
  The shared state. \<open>jobs\<close> and \<open>results\<close> are the buffers of the two channels, both of
  capacity \<^verbatim>\<open>len(productLinks)\<close>; worker \<open>wid\<close> is at position \<open>wid - 1\<close> of \<open>workers\<close>;
  \<open>wg\<close> is the counter of the wait group; \<open>panicked\<close> records a run-time panic (a send on
  a closed channel, closing a closed channel, a negative wait-group counter).
\<close>

record pool =
  productLinks :: "string list"
  main_at :: main_pc
  workers :: "worker_pc list"
  jobs :: "string list"
  jobs_closed :: bool
  results :: "Product list"
  results_closed :: bool
  wg :: nat
  finalProducts :: "Product list"
  log_lines :: "log_line list"
  panicked :: bool

definition init_pool :: "string list \<Rightarrow> pool" where
  "init_pool links =
     \<lparr>productLinks = links, main_at = MSpawn 1, workers = [], jobs = [], jobs_closed = False,
      results = [], results_closed = False, wg = 0, finalProducts = [], log_lines = [],
      panicked = False\<rparr>"

text \<open>
  One step of the main goroutine, for \<open>W\<close> workers (\<^verbatim>\<open>numWorkers\<close> in the source);
  \<open>None\<close> when it is blocked or has finished.
\<close>

definition main_step :: "nat \<Rightarrow> pool \<Rightarrow> pool option" where
  "main_step W s =
     (if panicked s then None
      else case main_at s of
        MSpawn i \<Rightarrow>
          if i \<le> W then Some (s\<lparr>wg := wg s + 1, main_at := MGo i\<rparr>)
          else Some (s\<lparr>main_at := MEnqueue 0\<rparr>)
      | MGo i \<Rightarrow> Some (s\<lparr>workers := workers s @ [WRange], main_at := MSpawn (i + 1)\<rparr>)
      | MEnqueue i \<Rightarrow>
          if i < length (productLinks s) \<and> \<not> i \<ge> productTarget
          then (if jobs_closed s then Some (s\<lparr>panicked := True\<rparr>)
                else if length (jobs s) < length (productLinks s)
                then Some (s\<lparr>jobs := jobs s @ [productLinks s ! i], main_at := MEnqueue (i + 1)\<rparr>)
                else None)
          else Some (s\<lparr>main_at := MCloseJobs\<rparr>)
      | MCloseJobs \<Rightarrow>
          if jobs_closed s then Some (s\<lparr>panicked := True\<rparr>)
          else Some (s\<lparr>jobs_closed := True, main_at := MWait\<rparr>)
      | MWait \<Rightarrow> if wg s = 0 then Some (s\<lparr>main_at := MCloseResults\<rparr>) else None
      | MCloseResults \<Rightarrow>
          if results_closed s then Some (s\<lparr>panicked := True\<rparr>)
          else Some (s\<lparr>results_closed := True, main_at := MDrain\<rparr>)
      | MDrain \<Rightarrow>
          (case results s of
             product # rest \<Rightarrow>
               Some (s\<lparr>results := rest, finalProducts := finalProducts s @ [product]\<rparr>)
           | [] \<Rightarrow> if results_closed s then Some (s\<lparr>main_at := MDone\<rparr>) else None)
      | MDone \<Rightarrow> None)"

text \<open>
  One step of worker \<open>wid\<close>; \<open>b\<close> is what the browser answers if the step is the call of
  \<^verbatim>\<open>scrapeProductPage\<close>. \<open>None\<close> when there is no such worker, or it is blocked or has
  returned.
\<close>

definition worker_step :: "nat \<Rightarrow> browser \<Rightarrow> pool \<Rightarrow> pool option" where
  "worker_step wid b s =
     (if panicked s \<or> wid < 1 \<or> length (workers s) < wid then None
      else case workers s ! (wid - 1) of
        WRange \<Rightarrow>
          (case jobs s of
             url # rest \<Rightarrow>
               Some (s\<lparr>jobs := rest,
                       log_lines := log_lines s @ [LogScraping wid url],
                       workers := (workers s)[wid - 1 := WScrape url]\<rparr>)
           | [] \<Rightarrow>
               if jobs_closed s
               then (if wg s = 0 then Some (s\<lparr>panicked := True\<rparr>)
                     else Some (s\<lparr>wg := wg s - 1, workers := (workers s)[wid - 1 := WExited]\<rparr>))
               else None)
      | WScrape url \<Rightarrow>
          (case scrapeProductPage b url of
             (product, Some e, performed) \<Rightarrow>
               Some (s\<lparr>log_lines := log_lines s @ [LogError wid url e],
                       workers := (workers s)[wid - 1 := WRange]\<rparr>)
           | (product, None, performed) \<Rightarrow>
               Some (s\<lparr>log_lines := log_lines s @ [LogSuccess wid url (Name product)],
                       workers := (workers s)[wid - 1 := WSend product]\<rparr>))
      | WSend product \<Rightarrow>
          if results_closed s then Some (s\<lparr>panicked := True\<rparr>)
          else if length (results s) < length (productLinks s)
          then Some (s\<lparr>results := results s @ [product],
                       workers := (workers s)[wid - 1 := WRange]\<rparr>)
          else None
      | WExited \<Rightarrow> None)"

datatype event = MainStep | WorkerStep nat browser

definition pool_step :: "nat \<Rightarrow> event \<Rightarrow> pool \<Rightarrow> pool option" where
  "pool_step W e s =
     (case e of MainStep \<Rightarrow> main_step W s | WorkerStep wid b \<Rightarrow> worker_step wid b s)"

text \<open>
  The state a schedule leads to: an event whose goroutine cannot move leaves the state as
  it is.
\<close>

fun pool_exec :: "nat \<Rightarrow> event list \<Rightarrow> pool \<Rightarrow> pool" where
  "pool_exec W [] s = s"
| "pool_exec W (e # es) s =
     pool_exec W es (case pool_step W e s of None \<Rightarrow> s | Some s' \<Rightarrow> s')"

text \<open>What the log says: the URLs of the jobs taken, failed and succeeded, in order.\<close>

definition started :: "log_line list \<Rightarrow> string list" where
  "started l = concat (map (\<lambda>x. case x of LogScraping i u \<Rightarrow> [u] | _ \<Rightarrow> []) l)"

definition failed :: "log_line list \<Rightarrow> string list" where
  "failed l = concat (map (\<lambda>x. case x of LogError i u e \<Rightarrow> [u] | _ \<Rightarrow> []) l)"

definition succeeded :: "log_line list \<Rightarrow> string list" where
  "succeeded l = concat (map (\<lambda>x. case x of LogSuccess i u n \<Rightarrow> [u] | _ \<Rightarrow> []) l)"

text \<open>The jobs and records the workers hold, and the workers that have not returned.\<close>

fun scraping_of :: "worker_pc \<Rightarrow> string multiset" where
  "scraping_of (WScrape u) = {#u#}"
| "scraping_of WRange = {#}"
| "scraping_of (WSend p) = {#}"
| "scraping_of WExited = {#}"

fun sending_of :: "worker_pc \<Rightarrow> Product multiset" where
  "sending_of (WSend p) = {#p#}"
| "sending_of WRange = {#}"
| "sending_of (WScrape u) = {#}"
| "sending_of WExited = {#}"

fun alive :: "worker_pc \<Rightarrow> nat" where
  "alive WExited = 0"
| "alive WRange = 1"
| "alive (WScrape u) = 1"
| "alive (WSend p) = 1"

text \<open>
  What the place of the main goroutine says about the state: the number of jobs
  \<^verbatim>\<open>Start\<close> enqueues in all, the number put on \<open>jobs\<close> so far, the number of workers
  started so far, the \<^verbatim>\<open>wg.Add(1)\<close> whose worker is not started yet, the range of the
  loop indices, and which channels are closed.
\<close>

definition job_limit :: "string list \<Rightarrow> nat" where
  "job_limit links = min (length links) productTarget"

fun enqueued :: "nat \<Rightarrow> main_pc \<Rightarrow> nat" where
  "enqueued M (MSpawn i) = 0"
| "enqueued M (MGo i) = 0"
| "enqueued M (MEnqueue i) = i"
| "enqueued M MCloseJobs = M"
| "enqueued M MWait = M"
| "enqueued M MCloseResults = M"
| "enqueued M MDrain = M"
| "enqueued M MDone = M"

fun spawned :: "nat \<Rightarrow> main_pc \<Rightarrow> nat" where
  "spawned W (MSpawn i) = i - 1"
| "spawned W (MGo i) = i - 1"
| "spawned W (MEnqueue i) = W"
| "spawned W MCloseJobs = W"
| "spawned W MWait = W"
| "spawned W MCloseResults = W"
| "spawned W MDrain = W"
| "spawned W MDone = W"

fun pending_add :: "main_pc \<Rightarrow> nat" where
  "pending_add (MGo i) = 1"
| "pending_add (MSpawn i) = 0"
| "pending_add (MEnqueue i) = 0"
| "pending_add MCloseJobs = 0"
| "pending_add MWait = 0"
| "pending_add MCloseResults = 0"
| "pending_add MDrain = 0"
| "pending_add MDone = 0"

fun index_in_range :: "nat \<Rightarrow> nat \<Rightarrow> main_pc \<Rightarrow> bool" where
  "index_in_range W M (MSpawn i) = (1 \<le> i \<and> i \<le> W + 1)"
| "index_in_range W M (MGo i) = (1 \<le> i \<and> i \<le> W)"
| "index_in_range W M (MEnqueue i) = (i \<le> M)"
| "index_in_range W M MCloseJobs = True"
| "index_in_range W M MWait = True"
| "index_in_range W M MCloseResults = True"
| "index_in_range W M MDrain = True"
| "index_in_range W M MDone = True"

fun jobs_closed_at :: "main_pc \<Rightarrow> bool" where
  "jobs_closed_at (MSpawn i) = False"
| "jobs_closed_at (MGo i) = False"
| "jobs_closed_at (MEnqueue i) = False"
| "jobs_closed_at MCloseJobs = False"
| "jobs_closed_at MWait = True"
| "jobs_closed_at MCloseResults = True"
| "jobs_closed_at MDrain = True"
| "jobs_closed_at MDone = True"

fun after_wait :: "main_pc \<Rightarrow> bool" where
  "after_wait (MSpawn i) = False"
| "after_wait (MGo i) = False"
| "after_wait (MEnqueue i) = False"
| "after_wait MCloseJobs = False"
| "after_wait MWait = False"
| "after_wait MCloseResults = True"
| "after_wait MDrain = True"
| "after_wait MDone = True"

fun results_closed_at :: "main_pc \<Rightarrow> bool" where
  "results_closed_at (MSpawn i) = False"
| "results_closed_at (MGo i) = False"
| "results_closed_at (MEnqueue i) = False"
| "results_closed_at MCloseJobs = False"
| "results_closed_at MWait = False"
| "results_closed_at MCloseResults = False"
| "results_closed_at MDrain = True"
| "results_closed_at MDone = True"

text \<open>
  The invariant of the pool: no panic; the workers, the wait-group counter and the
  channel flags are as the place of the main goroutine says; the jobs taken so far and
  the jobs waiting on \<open>jobs\<close> are the links enqueued so far, in order; every job taken
  has failed, succeeded or is being scraped; every success is a record that is in
  \<open>finalProducts\<close>, on \<open>results\<close> or about to be sent; a worker has returned only after
  \<open>jobs\<close> was closed and empty.
\<close>

definition pool_inv :: "nat \<Rightarrow> pool \<Rightarrow> bool" where
  "pool_inv W s =
     (\<not> panicked s
      \<and> length (workers s) = spawned W (main_at s)
      \<and> wg s = sum_list (map alive (workers s)) + pending_add (main_at s)
      \<and> index_in_range W (job_limit (productLinks s)) (main_at s)
      \<and> jobs_closed s = jobs_closed_at (main_at s)
      \<and> results_closed s = results_closed_at (main_at s)
      \<and> (after_wait (main_at s) \<longrightarrow> wg s = 0)
      \<and> started (log_lines s) @ jobs s
          = take (enqueued (job_limit (productLinks s)) (main_at s)) (productLinks s)
      \<and> mset (started (log_lines s))
          = mset (failed (log_lines s)) + mset (succeeded (log_lines s))
            + sum_list (map scraping_of (workers s))
      \<and> mset (succeeded (log_lines s))
          = image_mset URL (mset (finalProducts s) + mset (results s)
                             + sum_list (map sending_of (workers s)))
      \<and> (WExited \<in> set (workers s) \<longrightarrow> jobs s = [] \<and> jobs_closed s)
      \<and> (main_at s = MDone \<longrightarrow> results s = []))"

text \<open>A measure that every step decreases.\<close>

fun worker_rank :: "worker_pc \<Rightarrow> nat" where
  "worker_rank WRange = 1"
| "worker_rank (WScrape u) = 4"
| "worker_rank (WSend p) = 3"
| "worker_rank WExited = 0"

fun main_rank :: "nat \<Rightarrow> nat \<Rightarrow> main_pc \<Rightarrow> nat" where
  "main_rank W M (MSpawn i) = 6 + 5 * M + 3 * (W + 1 - i)"
| "main_rank W M (MGo i) = 6 + 5 * M + 3 * (W + 1 - i) - 1"
| "main_rank W M (MEnqueue i) = 5 + 5 * (M - i)"
| "main_rank W M MCloseJobs = 4"
| "main_rank W M MWait = 3"
| "main_rank W M MCloseResults = 2"
| "main_rank W M MDrain = 1"
| "main_rank W M MDone = 0"

definition pool_measure :: "nat \<Rightarrow> pool \<Rightarrow> nat" where
  "pool_measure W s =
     main_rank W (job_limit (productLinks s)) (main_at s)
     + 4 * length (jobs s) + sum_list (map worker_rank (workers s)) + length (results s)"

text \<open>
  Runs for the examples: two links and a schedule that runs the pool of four workers to
  the end (worker 1 scrapes the first link, worker 2 fails at the second), and lists of
  any number of different links.
\<close>

definition sample_links :: "string list" where
  "sample_links =
     [''https://shop.adidas.jp/products/A1/'', ''https://shop.adidas.jp/products/B2/'']"

definition sample_schedule :: "event list" where
  "sample_schedule =
     replicate 13 MainStep
     @ [WorkerStep 1 browser_ok, WorkerStep 1 browser_ok,
        WorkerStep 2 browser_ok, WorkerStep 2 browser_not_ready,
        WorkerStep 1 browser_ok, WorkerStep 1 browser_ok,
        WorkerStep 2 browser_ok, WorkerStep 3 browser_ok, WorkerStep 4 browser_ok]
     @ replicate 4 MainStep"

definition many_links :: "nat \<Rightarrow> string list" where
  "many_links n =
     map (\<lambda>k. ''https://shop.adidas.jp/products/'' @ replicate k CHR ''a'' @ ''/'') [0..<n]"

section \<open>Properties of link discovery\<close>

lemma first_index_in_prefix:
  "x \<in> set pre \<Longrightarrow> first_index (pre @ xs) x < length pre"
  unfolding first_index_def
  by (induction pre) auto

lemma first_index_not_in_prefix:
  "x \<notin> set pre \<Longrightarrow> length pre \<le> first_index (pre @ xs) x"
  unfolding first_index_def
  by (induction pre) auto

lemma dedupe_loop_invariant:
  assumes "\<forall>x. map_get m x = (x \<in> set pre)"
    and "set r = set pre"
    and "distinct r"
    and "sorted_wrt (\<lambda>a b. first_index (pre @ xs) a < first_index (pre @ xs) b) r"
  shows "set (dedupe_loop xs m r) = set (pre @ xs)
       \<and> distinct (dedupe_loop xs m r)
       \<and> sorted_wrt (\<lambda>a b. first_index (pre @ xs) a < first_index (pre @ xs) b)
            (dedupe_loop xs m r)"
  using assms
proof (induction xs arbitrary: m r pre)
  case Nil
  then show ?case by simp
next
  case (Cons link links)
  have split: "pre @ link # links = (pre @ [link]) @ links" by simp
  show ?case
  proof (cases "link \<in> set pre")
    case True
    have seen: "\<forall>x. map_get m x = (x \<in> set (pre @ [link]))"
      using Cons.prems(1) True by auto
    have r: "set r = set (pre @ [link])"
      using Cons.prems(2) True by auto
    have ord: "sorted_wrt (\<lambda>a b. first_index ((pre @ [link]) @ links) a
                 < first_index ((pre @ [link]) @ links) b) r"
      using Cons.prems(4) by simp
    have step: "dedupe_loop (link # links) m r = dedupe_loop links m r"
      using True Cons.prems(1) by simp
    have "set (dedupe_loop links m r) = set ((pre @ [link]) @ links)
        \<and> distinct (dedupe_loop links m r)
        \<and> sorted_wrt (\<lambda>a b. first_index ((pre @ [link]) @ links) a
                 < first_index ((pre @ [link]) @ links) b) (dedupe_loop links m r)"
      by (rule Cons.IH [OF seen r Cons.prems(3) ord])
    then show ?thesis unfolding step by simp
  next
    case False
    have seen: "\<forall>x. map_get (m(link \<mapsto> True)) x = (x \<in> set (pre @ [link]))"
      using Cons.prems(1) by (auto simp: map_get_def)
    have r: "set (r @ [link]) = set (pre @ [link])"
      using Cons.prems(2) by simp
    have d: "distinct (r @ [link])"
      using Cons.prems(2,3) False by simp
    have below: "\<forall>a \<in> set r. first_index (pre @ link # links) a
                   < first_index (pre @ link # links) link"
    proof
      fix a assume "a \<in> set r"
      then have "a \<in> set pre" using Cons.prems(2) by simp
      then have "first_index (pre @ link # links) a < length pre"
        by (rule first_index_in_prefix)
      moreover have "length pre \<le> first_index (pre @ link # links) link"
        using False by (rule first_index_not_in_prefix)
      ultimately show "first_index (pre @ link # links) a
                         < first_index (pre @ link # links) link"
        by simp
    qed
    have ord: "sorted_wrt (\<lambda>a b. first_index ((pre @ [link]) @ links) a
                 < first_index ((pre @ [link]) @ links) b) (r @ [link])"
      using Cons.prems(4) below by (simp add: sorted_wrt_append)
    have step: "dedupe_loop (link # links) m r
                  = dedupe_loop links (m(link \<mapsto> True)) (r @ [link])"
      using False Cons.prems(1) by simp
    have "set (dedupe_loop links (m(link \<mapsto> True)) (r @ [link])) = set ((pre @ [link]) @ links)
        \<and> distinct (dedupe_loop links (m(link \<mapsto> True)) (r @ [link]))
        \<and> sorted_wrt (\<lambda>a b. first_index ((pre @ [link]) @ links) a
                 < first_index ((pre @ [link]) @ links) b)
              (dedupe_loop links (m(link \<mapsto> True)) (r @ [link]))"
      by (rule Cons.IH [OF seen r d ord])
    then show ?thesis unfolding step by simp
  qed
qed

lemma dedupe_loop_first_seen:
  "set (dedupe_loop links Map.empty []) = set links
   \<and> distinct (dedupe_loop links Map.empty [])
   \<and> sorted_wrt (\<lambda>a b. first_index links a < first_index links b)
        (dedupe_loop links Map.empty [])"
  using dedupe_loop_invariant [of Map.empty "[]" "[]" links]
  by (simp add: map_get_def)

text \<open>
  C3. When the navigation, the five scrolls and the anchor script succeed and the page
  shows the raw anchor list \<open>links\<close> (duplicates allowed), link discovery returns a list
  with every distinct URL of \<open>links\<close> exactly once (so exactly \<open>K = card (set links)\<close>
  URLs), ordered by the position of each URL's first occurrence in \<open>links\<close>.
\<close>

theorem discoverProductLinks_unique_first_seen:
  assumes "navigate page url = None"
    and "scroll_loop page 0 scrolls = None"
    and "anchors page = Inr links"
  shows "\<exists>result. discoverProductLinks page url = Inr result
           \<and> length result = card (set links)
           \<and> distinct result
           \<and> set result = set links
           \<and> sorted_wrt (\<lambda>a b. first_index links a < first_index links b) result"
proof -
  let ?res = "dedupe_loop links Map.empty []"
  have run: "discoverProductLinks page url = Inr ?res"
    using assms by (simp add: discoverProductLinks_def)
  have props: "set ?res = set links \<and> distinct ?res
      \<and> sorted_wrt (\<lambda>a b. first_index links a < first_index links b) ?res"
    by (rule dedupe_loop_first_seen)
  then have "length ?res = card (set links)"
    using distinct_card [of ?res] by simp
  with run props show ?thesis by blast
qed

theorem discoverProductLinks_unique_first_seen_witness:
  "navigate sample_listing ''https://shop.adidas.jp/men/'' = None
   \<and> scroll_loop sample_listing 0 scrolls = None
   \<and> discoverProductLinks sample_listing ''https://shop.adidas.jp/men/''
       = Inr [''https://shop.adidas.jp/products/A1/'', ''https://shop.adidas.jp/products/B2/'']
   \<and> (\<exists>result. discoverProductLinks sample_listing ''https://shop.adidas.jp/men/'' = Inr result
         \<and> length result = 2 \<and> distinct result)"
proof -
  have n: "navigate sample_listing ''https://shop.adidas.jp/men/'' = None"
    by (simp add: sample_listing_def)
  have s: "scroll_loop sample_listing 0 scrolls = None"
    by (simp add: sample_listing_def scrolls_def eval_nat_numeral)
  have a: "anchors sample_listing = Inr [''https://shop.adidas.jp/products/A1/'',
                     ''https://shop.adidas.jp/products/B2/'',
                     ''https://shop.adidas.jp/products/A1/'']"
    by (simp add: sample_listing_def)
  have run: "discoverProductLinks sample_listing ''https://shop.adidas.jp/men/''
       = Inr [''https://shop.adidas.jp/products/A1/'', ''https://shop.adidas.jp/products/B2/'']"
    using n s a by (simp add: discoverProductLinks_def map_get_def)
  from discoverProductLinks_unique_first_seen [OF n s a] n s run
  show ?thesis by auto
qed

section \<open>Properties of the product page scraper\<close>

lemma Split_not_Nil: "Split s sep \<noteq> []"
  by (induction s) (auto split: list.splits)

lemma Split_snoc_sep: "Split (s @ [sep]) sep = Split s sep @ [[]]"
  by (induction s) (auto split: list.splits simp: Split_not_Nil)

lemma Split_snoc_other:
  "c \<noteq> sep \<Longrightarrow> Split (s @ [c]) sep = butlast (Split s sep) @ [last (Split s sep) @ [c]]"
  by (induction s) (auto split: list.splits simp: Split_not_Nil)

lemma last_Split: "last (Split s sep) = rev (takeWhile (\<lambda>c. c \<noteq> sep) (rev s))"
proof (induction s rule: rev_induct)
  case Nil
  then show ?case by simp
next
  case (snoc c s)
  then show ?case
    by (cases "c = sep") (simp_all add: Split_snoc_sep Split_snoc_other)
qed

lemma last_nonempty_segment_rev:
  "last_nonempty_segment s =
     (if dropWhile (\<lambda>c. c = CHR ''/'') (rev s) = [] then None
      else Some (rev (takeWhile (\<lambda>c. c \<noteq> CHR ''/'') (dropWhile (\<lambda>c. c = CHR ''/'') (rev s)))))"
proof (induction s rule: rev_induct)
  case Nil
  then show ?case by (simp add: last_nonempty_segment_def)
next
  case (snoc c s)
  show ?case
  proof (cases "c = CHR ''/''")
    case True
    have "last_nonempty_segment (s @ [c]) = last_nonempty_segment s"
      using True by (simp add: last_nonempty_segment_def Split_snoc_sep)
    then show ?thesis using snoc True by simp
  next
    case False
    then show ?thesis
      by (simp add: last_nonempty_segment_def Split_snoc_other last_Split)
  qed
qed

lemma deriveProductID_rev:
  "deriveProductID url =
     rev (takeWhile (\<lambda>c. c \<noteq> CHR ''/'')
            (dropWhile (\<lambda>c. c = CHR ''/'') (rev (dropWhile (\<lambda>c. c = CHR ''/'') url))))"
proof -
  have "deriveProductID url = last (Split (Trim url ''/'') CHR ''/'')"
    by (simp add: deriveProductID_def Let_def Split_not_Nil last_conv_nth)
  then show ?thesis by (simp add: last_Split Trim_def)
qed

lemma Trim_single:
  "Trim s [c] = rev (dropWhile (\<lambda>x. x = c) (rev (dropWhile (\<lambda>x. x = c) s)))"
  by (simp add: Trim_def)

lemma Trim_trailing: "Trim (s @ [c]) [c] = Trim s [c]"
proof (cases "\<forall>x \<in> set s. x = c")
  case True
  then have a: "dropWhile (\<lambda>x. x = c) s = []"
    by (induction s) auto
  from True have b: "dropWhile (\<lambda>x. x = c) (s @ [c]) = []"
    by (induction s) auto
  show ?thesis unfolding Trim_single a b by (rule refl)
next
  case False
  then have "dropWhile (\<lambda>x. x = c) (s @ [c]) = dropWhile (\<lambda>x. x = c) s @ [c]"
    by (auto simp: dropWhile_append1)
  then show ?thesis unfolding Trim_single by simp
qed

lemma deriveProductID_trailing_slash:
  "deriveProductID (url @ ''/'') = deriveProductID url"
  using Trim_trailing [of url "CHR ''/''"] by (simp add: deriveProductID_def)

lemma last_dropWhile_nonempty:
  "dropWhile Q xs \<noteq> [] \<Longrightarrow> last (dropWhile Q xs) = last xs"
  by (induction xs) (auto split: if_splits)

lemma deriveProductID_prefix_path:
  assumes pre: "pre \<noteq> []" "hd pre \<noteq> CHR ''/''"
    and path: "hd path = CHR ''/''"
    and seg: "last_nonempty_segment path = Some seg"
  shows "deriveProductID (pre @ path) = seg"
proof -
  let ?X = "dropWhile (\<lambda>c. c = CHR ''/'') (rev path)"
  have X: "?X \<noteq> []" and seg_eq: "seg = rev (takeWhile (\<lambda>c. c \<noteq> CHR ''/'') ?X)"
    using seg by (auto simp: last_nonempty_segment_rev split: if_splits)
  then have ne: "path \<noteq> []" by auto
  have lead: "dropWhile (\<lambda>c. c = CHR ''/'') (pre @ path) = pre @ path"
    using pre by (cases pre) auto
  obtain x where x: "x \<in> set (rev path)" "x \<noteq> CHR ''/''"
    using X by (auto simp: dropWhile_eq_Nil_conv)
  have d: "dropWhile (\<lambda>c. c = CHR ''/'') (rev path @ rev pre) = ?X @ rev pre"
    using x by (simp add: dropWhile_append1)
  have "last ?X = last (rev path)" using X by (rule last_dropWhile_nonempty)
  also have "\<dots> = CHR ''/''" using ne path by (simp add: last_rev)
  finally have "CHR ''/'' \<in> set ?X" using X last_in_set by metis
  then have t: "takeWhile (\<lambda>c. c \<noteq> CHR ''/'') (?X @ rev pre) = takeWhile (\<lambda>c. c \<noteq> CHR ''/'') ?X"
    by (simp add: takeWhile_append1)
  show ?thesis
    unfolding deriveProductID_rev lead using d t seg_eq by simp
qed


lemma render_url_plain:
  assumes "url_query u = None" "url_fragment u = None"
  shows "render_url u = (url_scheme u @ ''://'' @ url_authority u) @ url_path u"
  using assms by (simp add: render_url_def)

lemma Run_failure:
  assumes "\<exists>t \<in> set ts. isl (b (fst t))"
  shows "\<exists>e v' performed. Run b ts v = (Some e, v', performed)
           \<and> prefix performed (map fst ts) \<and> performed \<noteq> []
           \<and> b (last performed) = Inl e
           \<and> list_all (\<lambda>x. \<not> isl (b x)) (butlast performed)"
  using assms
proof (induction ts arbitrary: v)
  case Nil
  then show ?case by simp
next
  case (Cons t ts)
  obtain a dst where t: "t = (a, dst)" by (cases t)
  show ?case
  proof (cases "b a")
    case (Inl e)
    then show ?thesis using t by simp
  next
    case (Inr s)
    then have "\<exists>t \<in> set ts. isl (b (fst t))" using Cons.prems t by auto
    from Cons.IH [OF this, of "dst s v"]
    obtain e v' performed where r: "Run b ts (dst s v) = (Some e, v', performed)"
      "prefix performed (map fst ts)" "performed \<noteq> []" "b (last performed) = Inl e"
      "list_all (\<lambda>x. \<not> isl (b x)) (butlast performed)"
      by blast
    then show ?thesis using t Inr by simp
  qed
qed

lemma Run_success:
  assumes "\<forall>t \<in> set ts. \<not> isl (b (fst t))"
  shows "\<exists>v'. Run b ts v = (None, v', map fst ts)"
  using assms
proof (induction ts arbitrary: v)
  case Nil
  then show ?case by simp
next
  case (Cons t ts)
  obtain a dst where t: "t = (a, dst)" by (cases t)
  from Cons.prems t obtain s where s: "b a = Inr s" by (cases "b a") auto
  from Cons.prems have "\<forall>t \<in> set ts. \<not> isl (b (fst t))" by simp
  from Cons.IH [OF this, of "dst s v"] obtain v' where "Run b ts (dst s v) = (None, v', map fst ts)"
    by blast
  then show ?case using t s by simp
qed

lemma Run_preserves:
  assumes "\<forall>t \<in> set ts. \<forall>s w. f (snd t s w) = f w"
    and "Run b ts v = (e, v', performed)"
  shows "f v' = f v"
  using assms
proof (induction ts arbitrary: v e v' performed)
  case Nil
  then show ?case by simp
next
  case (Cons t ts)
  obtain a dst where t: "t = (a, dst)" by (cases t)
  show ?case
  proof (cases "b a")
    case (Inl x)
    then show ?thesis using Cons.prems t by simp
  next
    case (Inr s)
    obtain e1 v1 p1 where r: "Run b ts (dst s v) = (e1, v1, p1)"
      by (cases "Run b ts (dst s v)") auto
    have "f v1 = f (dst s v)"
      using Cons.IH [OF _ r] Cons.prems(1) by simp
    moreover have "f (dst s v) = f v" using Cons.prems(1) t by simp
    moreover have "v' = v1" using Cons.prems(2) t Inr r by simp
    ultimately show ?thesis by simp
  qed
qed

lemma tasks_distinct: "distinct (map fst (tasks url))"
  by (simp add: tasks_def sizeChartScript_def reviewsScript_def coordinatedProductsScript_def)

lemma tasks_keep_identity:
  "\<forall>t \<in> set (tasks url). \<forall>s w. (URL (p_var (snd t s w)), ProductID (p_var (snd t s w)))
       = (URL (p_var w), ProductID (p_var w))"
  by (simp add: tasks_def no_dest_def)

lemma scrapeProductPage_success_identity:
  assumes "scrapeProductPage b url = (p, None, performed)"
  shows "URL p = url \<and> ProductID p = deriveProductID url"
proof -
  let ?v = "\<lparr>p_var = zero_Product\<lparr>URL := url, ProductID := deriveProductID url\<rparr>,
             sizeChartRaw = [], reviewsRaw = [], coordinatedRaw = []\<rparr>"
  obtain e v' tr where r: "Run b (tasks url) ?v = (e, v', tr)"
    by (cases "Run b (tasks url) ?v") auto
  with assms have e: "e = None"
    and p: "p = (p_var v')\<lparr>SizeChartJSON := sizeChartRaw v', ReviewsJSON := reviewsRaw v',
                        CoordinatedProductsJSON := coordinatedRaw v'\<rparr>"
    by (auto simp: scrapeProductPage_def Let_def split: option.splits)
  have "(URL (p_var v'), ProductID (p_var v')) = (URL (p_var ?v), ProductID (p_var ?v))"
    using Run_preserves [OF tasks_keep_identity r] .
  then show ?thesis using p by simp
qed

lemma scrapeProductPage_failure:
  assumes "a \<in> fst ` set (tasks url)" and "isl (b a)"
  shows "\<exists>e performed. scrapeProductPage b url
             = (zero_Product, Some (''browser actions failed: '' @ e), performed)
           \<and> prefix performed (map fst (tasks url)) \<and> performed \<noteq> []
           \<and> b (last performed) = Inl e
           \<and> list_all (\<lambda>x. \<not> isl (b x)) (butlast performed)"
proof -
  let ?v = "\<lparr>p_var = zero_Product\<lparr>URL := url, ProductID := deriveProductID url\<rparr>,
             sizeChartRaw = [], reviewsRaw = [], coordinatedRaw = []\<rparr>"
  have "\<exists>t \<in> set (tasks url). isl (b (fst t))" using assms by auto
  from Run_failure [OF this, of ?v]
  obtain e v' performed where r: "Run b (tasks url) ?v = (Some e, v', performed)"
      "prefix performed (map fst (tasks url))" "performed \<noteq> []" "b (last performed) = Inl e"
      "list_all (\<lambda>x. \<not> isl (b x)) (butlast performed)"
    by blast
  then have "scrapeProductPage b url
             = (zero_Product, Some (''browser actions failed: '' @ e), performed)"
    by (simp add: scrapeProductPage_def Let_def)
  with r show ?thesis by blast
qed

text \<open>
  C4. If any action of the extraction sequence fails (the page-ready wait, the size-chart
  click, or any other of the 20 actions), \<^verbatim>\<open>scrapeProductPage\<close> returns an error that
  wraps the error of the first failing action, with the zero record in place of the
  page's record. The actions performed are an initial stretch of the sequence, each
  performed once, ending with the failing one: nothing is retried and nothing runs after
  the failure.
\<close>

theorem scrapeProductPage_aborts_on_failed_step:
  assumes "a \<in> fst ` set (tasks url)" and "isl (b a)"
  shows "\<exists>e performed. scrapeProductPage b url
             = (zero_Product, Some (''browser actions failed: '' @ e), performed)
           \<and> prefix performed (map fst (tasks url)) \<and> distinct performed
           \<and> performed \<noteq> [] \<and> b (last performed) = Inl e
           \<and> list_all (\<lambda>x. \<not> isl (b x)) (butlast performed)"
proof -
  from scrapeProductPage_failure [of a url b, OF assms]
  obtain e performed where r: "scrapeProductPage b url
             = (zero_Product, Some (''browser actions failed: '' @ e), performed)"
      "prefix performed (map fst (tasks url))" "performed \<noteq> []" "b (last performed) = Inl e"
      "list_all (\<lambda>x. \<not> isl (b x)) (butlast performed)"
    by blast
  from r(2) obtain rest where "map fst (tasks url) = performed @ rest"
    by (auto simp: prefix_def)
  then have "distinct performed" using tasks_distinct [of url] by simp
  with r show ?thesis by blast
qed

text \<open>
  Where the derivation does give the last non-empty segment of the path: a valid URL
  that ends with its path (no query, no fragment), with or without one more trailing
  slash. The identifier is computed from the URL alone, and every successful scrape of
  that URL, whatever the browser answers, carries it.
\<close>

lemma deriveProductID_plain_url:
  assumes "valid_url u" and "url_query u = None" and "url_fragment u = None"
    and "last_nonempty_segment (url_path u) = Some seg"
  shows "deriveProductID (render_url u) = seg
       \<and> deriveProductID (render_url (u\<lparr>url_path := url_path u @ ''/''\<rparr>)) = seg
       \<and> (\<forall>b p performed. scrapeProductPage b (render_url u) = (p, None, performed)
             \<longrightarrow> ProductID p = seg)"
proof -
  let ?pre = "url_scheme u @ ''://'' @ url_authority u"
  have ne: "url_path u \<noteq> []"
    using assms(4) by (auto simp: last_nonempty_segment_def)
  have pre: "?pre \<noteq> []" "hd ?pre \<noteq> CHR ''/''"
    using assms(1) by (cases "url_scheme u"; simp add: valid_url_def delimiter_free_def)+
  have path: "hd (url_path u) = CHR ''/''"
    using assms(1) ne by (simp add: valid_url_def)
  have 1: "deriveProductID (render_url u) = seg"
    unfolding render_url_plain [OF assms(2,3)]
    using pre path assms(4) by (rule deriveProductID_prefix_path)
  have "render_url (u\<lparr>url_path := url_path u @ ''/''\<rparr>) = render_url u @ ''/''"
    using assms(2,3) by (simp add: render_url_def)
  then have 2: "deriveProductID (render_url (u\<lparr>url_path := url_path u @ ''/''\<rparr>)) = seg"
    using 1 deriveProductID_trailing_slash by simp
  have 3: "\<forall>b p performed. scrapeProductPage b (render_url u) = (p, None, performed)
             \<longrightarrow> ProductID p = seg"
    using scrapeProductPage_success_identity 1 by blast
  from 1 2 3 show ?thesis by blast
qed

lemma deriveProductID_plain_url_example:
  "valid_url url_plain \<and> url_query url_plain = None \<and> url_fragment url_plain = None
   \<and> last_nonempty_segment (url_path url_plain) = Some ''12345''
   \<and> render_url url_plain = ''https://shop.adidas.jp/products/12345/''
   \<and> deriveProductID (render_url url_plain) = ''12345''
   \<and> deriveProductID (render_url (url_plain\<lparr>url_path := url_path url_plain @ ''/''\<rparr>)) = ''12345''"
proof -
  have v: "valid_url url_plain"
    by (simp add: valid_url_def url_plain_def delimiter_free_def)
  have q: "url_query url_plain = None" and f: "url_fragment url_plain = None"
    by (simp_all add: url_plain_def)
  have s: "last_nonempty_segment (url_path url_plain) = Some ''12345''"
    by (simp add: last_nonempty_segment_def url_plain_def)
  have r: "render_url url_plain = ''https://shop.adidas.jp/products/12345/''"
    by (simp add: render_url_def url_plain_def)
  from deriveProductID_plain_url [OF v q f s] v q f s r
  show ?thesis by simp
qed

text \<open>
  C2. The claim: for every syntactically valid product URL the derived identifier is the
  last non-empty segment of the URL's path. The code cuts the identifier from the whole
  URL string, not from its path: for the valid URL
  \<^verbatim>\<open>https://shop.adidas.jp/products/12345/?color=red\<close>, whose path has the last non-empty
  segment \<^verbatim>\<open>12345\<close>, it derives \<^verbatim>\<open>?color=red\<close>, and a successful scrape returns a record
  with that identifier; for \<^verbatim>\<open>https://shop.adidas.jp/products/12345#reviews\<close> it derives
  \<^verbatim>\<open>12345#reviews\<close>.
\<close>

theorem deriveProductID_query_fragment:
  "valid_url url_with_query
   \<and> render_url url_with_query = ''https://shop.adidas.jp/products/12345/?color=red''
   \<and> last_nonempty_segment (url_path url_with_query) = Some ''12345''
   \<and> deriveProductID (render_url url_with_query) = ''?color=red''
   \<and> ProductID (fst (scrapeProductPage browser_ok (render_url url_with_query))) = ''?color=red''
   \<and> fst (snd (scrapeProductPage browser_ok (render_url url_with_query))) = None
   \<and> valid_url url_with_fragment
   \<and> render_url url_with_fragment = ''https://shop.adidas.jp/products/12345#reviews''
   \<and> last_nonempty_segment (url_path url_with_fragment) = Some ''12345''
   \<and> deriveProductID (render_url url_with_fragment) = ''12345#reviews''"
proof -
  have r: "render_url url_with_query = ''https://shop.adidas.jp/products/12345/?color=red''"
    by (simp add: url_with_query_def render_url_def)
  have d: "deriveProductID ''https://shop.adidas.jp/products/12345/?color=red'' = ''?color=red''"
    by (simp add: deriveProductID_def Trim_def)
  have ok: "\<forall>t \<in> set (tasks ''https://shop.adidas.jp/products/12345/?color=red'').
              \<not> isl (browser_ok (fst t))"
    by (simp add: browser_ok_def)
  obtain v' where run: "Run browser_ok (tasks ''https://shop.adidas.jp/products/12345/?color=red'')
      \<lparr>p_var = zero_Product\<lparr>URL := ''https://shop.adidas.jp/products/12345/?color=red'',
                ProductID := deriveProductID ''https://shop.adidas.jp/products/12345/?color=red''\<rparr>,
       sizeChartRaw = [], reviewsRaw = [], coordinatedRaw = []\<rparr>
      = (None, v', map fst (tasks ''https://shop.adidas.jp/products/12345/?color=red''))"
    using Run_success [OF ok] by blast
  then have e: "fst (snd (scrapeProductPage browser_ok
      ''https://shop.adidas.jp/products/12345/?color=red'')) = None"
    by (simp add: scrapeProductPage_def Let_def)
  then obtain p performed where sp: "scrapeProductPage browser_ok
      ''https://shop.adidas.jp/products/12345/?color=red'' = (p, None, performed)"
    by (cases "scrapeProductPage browser_ok
      ''https://shop.adidas.jp/products/12345/?color=red''") auto
  have pid: "ProductID (fst (scrapeProductPage browser_ok
      ''https://shop.adidas.jp/products/12345/?color=red'')) = ''?color=red''"
    using scrapeProductPage_success_identity [OF sp] sp d by simp
  have q: "valid_url url_with_query
      \<and> last_nonempty_segment (url_path url_with_query) = Some ''12345''"
    by (simp add: valid_url_def url_with_query_def delimiter_free_def last_nonempty_segment_def)
  have f: "valid_url url_with_fragment
      \<and> render_url url_with_fragment = ''https://shop.adidas.jp/products/12345#reviews''
      \<and> last_nonempty_segment (url_path url_with_fragment) = Some ''12345''
      \<and> deriveProductID (render_url url_with_fragment) = ''12345#reviews''"
    by (simp add: valid_url_def url_with_fragment_def delimiter_free_def render_url_def
        last_nonempty_segment_def deriveProductID_def Trim_def)
  have d': "deriveProductID (render_url url_with_query) = ''?color=red''"
    unfolding r by (rule d)
  have e': "fst (snd (scrapeProductPage browser_ok (render_url url_with_query))) = None"
    unfolding r by (rule e)
  have pid': "ProductID (fst (scrapeProductPage browser_ok (render_url url_with_query)))
      = ''?color=red''"
    unfolding r by (rule pid)
  from r d' e' pid' q f show ?thesis by blast
qed

theorem scrapeProductPage_aborts_on_failed_step_witness:
  "Click ''.p-size-chart__link'' \<in> fst ` set (tasks ''https://shop.adidas.jp/products/12345/'')
   \<and> isl (browser_no_size_chart (Click ''.p-size-chart__link''))
   \<and> (\<exists>performed. scrapeProductPage browser_no_size_chart ''https://shop.adidas.jp/products/12345/''
         = (zero_Product, Some ''browser actions failed: context deadline exceeded'', performed)
       \<and> length performed = 18 \<and> last performed = Click ''.p-size-chart__link'')"
proof -
  have m: "Click ''.p-size-chart__link''
             \<in> fst ` set (tasks ''https://shop.adidas.jp/products/12345/'')"
    by (simp add: tasks_def)
  have i: "isl (browser_no_size_chart (Click ''.p-size-chart__link''))"
    by (simp add: browser_no_size_chart_def)
  have run: "\<exists>performed. scrapeProductPage browser_no_size_chart
                ''https://shop.adidas.jp/products/12345/''
         = (zero_Product, Some ''browser actions failed: context deadline exceeded'', performed)
       \<and> length performed = 18 \<and> last performed = Click ''.p-size-chart__link''"
    by (simp add: scrapeProductPage_def tasks_def browser_no_size_chart_def Let_def)
  note T = scrapeProductPage_aborts_on_failed_step
      [of "Click ''.p-size-chart__link''" "''https://shop.adidas.jp/products/12345/''"
          browser_no_size_chart, OF m i]
  from T m i run show ?thesis by blast
qed

lemma scrapeProductPage_error_zero:
  "fst (snd (scrapeProductPage b url)) \<noteq> None \<Longrightarrow> fst (scrapeProductPage b url) = zero_Product"
  by (auto simp: scrapeProductPage_def Let_def split: prod.splits option.splits)

text \<open>
  C9. If a browser action fails, \<^verbatim>\<open>scrapeProductPage\<close> returns an error; and whenever it
  returns an error, the record it returns with it is the zero value: every field is
  empty, the \<^verbatim>\<open>URL\<close> and the \<^verbatim>\<open>ProductID\<close> set before the navigation included.
\<close>

theorem scrapeProductPage_error_zero_Product:
  "(a \<in> fst ` set (tasks url) \<and> isl (b a) \<longrightarrow> fst (snd (scrapeProductPage b url)) \<noteq> None)
   \<and> (fst (snd (scrapeProductPage b url)) \<noteq> None \<longrightarrow>
        fst (scrapeProductPage b url) = zero_Product
        \<and> URL (fst (scrapeProductPage b url)) = []
        \<and> Name (fst (scrapeProductPage b url)) = []
        \<and> ProductID (fst (scrapeProductPage b url)) = []
        \<and> Price (fst (scrapeProductPage b url)) = []
        \<and> ImageURL (fst (scrapeProductPage b url)) = []
        \<and> Breadcrumb (fst (scrapeProductPage b url)) = []
        \<and> DescriptionGeneral (fst (scrapeProductPage b url)) = []
        \<and> DescriptionTitle (fst (scrapeProductPage b url)) = []
        \<and> DescriptionItemized (fst (scrapeProductPage b url)) = []
        \<and> AvailableSizes (fst (scrapeProductPage b url)) = []
        \<and> SenseOfSize (fst (scrapeProductPage b url)) = []
        \<and> Keywords (fst (scrapeProductPage b url)) = []
        \<and> SizeChartJSON (fst (scrapeProductPage b url)) = []
        \<and> ReviewsJSON (fst (scrapeProductPage b url)) = []
        \<and> OverallRating (fst (scrapeProductPage b url)) = []
        \<and> NumberOfReviews (fst (scrapeProductPage b url)) = []
        \<and> RecommendedRate (fst (scrapeProductPage b url)) = []
        \<and> CoordinatedProductsJSON (fst (scrapeProductPage b url)) = [])"
proof -
  have 1: "a \<in> fst ` set (tasks url) \<and> isl (b a) \<longrightarrow> fst (snd (scrapeProductPage b url)) \<noteq> None"
  proof
    assume h: "a \<in> fst ` set (tasks url) \<and> isl (b a)"
    from scrapeProductPage_failure [of a url b] h
    obtain e performed where "scrapeProductPage b url
        = (zero_Product, Some (''browser actions failed: '' @ e), performed)"
      by blast
    then show "fst (snd (scrapeProductPage b url)) \<noteq> None" by simp
  qed
  have 2: "fst (snd (scrapeProductPage b url)) \<noteq> None \<longrightarrow>
             fst (scrapeProductPage b url) = zero_Product"
    using scrapeProductPage_error_zero by blast
  show ?thesis using 1 2 by (simp add: zero_Product_def)
qed

theorem scrapeProductPage_error_zero_Product_witness:
  "WaitReady ''h1.p-article__name'' \<in> fst ` set (tasks ''https://shop.adidas.jp/products/12345/'')
   \<and> isl (browser_not_ready (WaitReady ''h1.p-article__name''))
   \<and> deriveProductID ''https://shop.adidas.jp/products/12345/'' = ''12345''
   \<and> fst (snd (scrapeProductPage browser_not_ready ''https://shop.adidas.jp/products/12345/''))
       = Some ''browser actions failed: context deadline exceeded''
   \<and> fst (scrapeProductPage browser_not_ready ''https://shop.adidas.jp/products/12345/'')
       = zero_Product
   \<and> ProductID (fst (scrapeProductPage browser_not_ready
         ''https://shop.adidas.jp/products/12345/'')) = []"
proof -
  have m: "WaitReady ''h1.p-article__name''
             \<in> fst ` set (tasks ''https://shop.adidas.jp/products/12345/'')"
    by (simp add: tasks_def)
  have i: "isl (browser_not_ready (WaitReady ''h1.p-article__name''))"
    by (simp add: browser_not_ready_def)
  have d: "deriveProductID ''https://shop.adidas.jp/products/12345/'' = ''12345''"
    by (simp add: deriveProductID_def Trim_def)
  have e: "fst (snd (scrapeProductPage browser_not_ready
              ''https://shop.adidas.jp/products/12345/''))
            = Some ''browser actions failed: context deadline exceeded''"
    by (simp add: scrapeProductPage_def tasks_def browser_not_ready_def Let_def)
  have nz: "fst (snd (scrapeProductPage browser_not_ready
              ''https://shop.adidas.jp/products/12345/'')) \<noteq> None"
    using e by simp
  note T = scrapeProductPage_error_zero_Product
         [of "WaitReady ''h1.p-article__name''" "''https://shop.adidas.jp/products/12345/''"
             browser_not_ready]
  from T nz have z: "fst (scrapeProductPage browser_not_ready
      ''https://shop.adidas.jp/products/12345/'') = zero_Product"
    by blast
  from T nz have pid: "ProductID (fst (scrapeProductPage browser_not_ready
      ''https://shop.adidas.jp/products/12345/'')) = []"
    by blast
  from m i d e z pid show ?thesis by blast
qed

section \<open>Properties of the remote renderer path\<close>

lemma scan_xhr_skip:
  "list_all (\<lambda>y. \<not> is_data_entry env y) pre \<Longrightarrow> scan_xhr env (pre @ rest) = scan_xhr env rest"
  by (induction pre) (auto simp: is_data_entry_def split: sum.splits)

lemma scan_xhr_none:
  "list_all (\<lambda>y. \<not> is_data_entry env y) xs \<Longrightarrow> scan_xhr env xs = None"
  using scan_xhr_skip [of env xs "[]"] by simp

lemma scan_xhr_found:
  assumes "list_all (\<lambda>y. \<not> is_data_entry env y) pre"
    and "Contains (URL_xhr x) ''recs/api/products''"
    and "unmarshal_products env (Body x) = Inr found"
  shows "scan_xhr env (pre @ x # post) = Some found"
  using scan_xhr_skip [OF assms(1), of "x # post"] assms(2,3) by simp

text \<open>
  C7. For a capture that was read and decoded, \<^verbatim>\<open>getProductDataFromFile\<close> returns the
  decoded body of the first exchange whose URL contains \<^verbatim>\<open>recs/api/products\<close> and whose
  body decodes, wherever that exchange stands in the list (any number of other exchanges
  before and after it); when no exchange is of that kind, it returns the error
  "no product data found ...".
\<close>

theorem getProductDataFromFile_scans_for_endpoint:
  assumes "open_file env filename = None"
    and "read_all env filename = Inr rawBody"
    and "unmarshal_capture env rawBody = Inr capture"
  shows "(XHR capture = pre @ x # post
          \<and> list_all (\<lambda>y. \<not> is_data_entry env y) pre
          \<and> Contains (URL_xhr x) ''recs/api/products''
          \<and> unmarshal_products env (Body x) = Inr found
          \<longrightarrow> getProductDataFromFile env filename = Inr found)
       \<and> (list_all (\<lambda>y. \<not> is_data_entry env y) (XHR capture)
          \<longrightarrow> getProductDataFromFile env filename
                = Inl (''no product data found in the XHR bodies with ''
                       @ [CHR 0x27] @ ''recs/api/products'' @ [CHR 0x27]
                       @ '' URL in the file''))"
  using assms
  by (auto simp: getProductDataFromFile_def scan_xhr_found scan_xhr_none)

theorem getProductDataFromFile_scans_for_endpoint_witness:
  "open_file sample_env ''sample.json'' = None
   \<and> read_all sample_env ''sample.json'' = Inr ''capture''
   \<and> list_all (\<lambda>y. \<not> is_data_entry sample_env y)
        [\<lparr>URL_xhr = ''https://shop.adidas.jp/f/v1/pub/config'', Body = ''{}''\<rparr>]
   \<and> Contains ''https://shop.adidas.jp/recs/api/products?page=men'' ''recs/api/products''
   \<and> fst (projr (getProductDataFromFile sample_env ''sample.json'')) = sample_products
   \<and> \<not> isl (getProductDataFromFile sample_env ''sample.json'')"
proof -
  let ?c = "\<lparr>HTML = ''<html></html>'',
         XHR = [\<lparr>URL_xhr = ''https://shop.adidas.jp/f/v1/pub/config'', Body = ''{}''\<rparr>,
                \<lparr>URL_xhr = ''https://shop.adidas.jp/recs/api/products?page=men'',
                 Body = ''data''\<rparr>,
                \<lparr>URL_xhr = ''https://shop.adidas.jp/f/v1/pub/banner'', Body = ''{}''\<rparr>]\<rparr>"
  let ?x = "\<lparr>URL_xhr = ''https://shop.adidas.jp/recs/api/products?page=men'', Body = ''data''\<rparr>"
  let ?found = "(sample_products,
      [\<lparr>Text_bc = ''Home'', Link_bc = ''/'', Type_bc = ''home''\<rparr>,
       \<lparr>Text_bc = ''Men'', Link_bc = ''/men/'', Type_bc = ''category''\<rparr>])"
  have o: "open_file sample_env ''sample.json'' = None"
    and r: "read_all sample_env ''sample.json'' = Inr ''capture''"
    and u: "unmarshal_capture sample_env ''capture'' = Inr ?c"
    by (simp_all add: sample_env_def)
  have pre: "list_all (\<lambda>y. \<not> is_data_entry sample_env y)
        [\<lparr>URL_xhr = ''https://shop.adidas.jp/f/v1/pub/config'', Body = ''{}''\<rparr>]"
    by (simp add: is_data_entry_def)
  have c: "Contains ''https://shop.adidas.jp/recs/api/products?page=men'' ''recs/api/products''"
    by simp
  have b: "unmarshal_products sample_env (Body ?x) = Inr ?found"
    by (simp add: sample_env_def)
  have l: "XHR ?c = [\<lparr>URL_xhr = ''https://shop.adidas.jp/f/v1/pub/config'', Body = ''{}''\<rparr>]
             @ ?x # [\<lparr>URL_xhr = ''https://shop.adidas.jp/f/v1/pub/banner'', Body = ''{}''\<rparr>]"
    by simp
  note T = getProductDataFromFile_scans_for_endpoint [OF o r u,
      of "[\<lparr>URL_xhr = ''https://shop.adidas.jp/f/v1/pub/config'', Body = ''{}''\<rparr>]" ?x
         "[\<lparr>URL_xhr = ''https://shop.adidas.jp/f/v1/pub/banner'', Body = ''{}''\<rparr>]" ?found]
  from T l pre c b
  have g: "getProductDataFromFile sample_env ''sample.json'' = Inr ?found"
    by simp
  from o r pre c g show ?thesis by simp
qed

lemma product_row_sizes:
  "length (product_row env bc product) = 11
   \<and> product_row env bc product ! 6 = product_row env bc product ! 7
   \<and> product_row env bc product ! 6 =
       (if Join (Sizes product) '', '' = [] then ''N/A'' else Join (Sizes product) '', '')"
  by (simp add: product_row_def Let_def)

lemma write_rows_mem: "r \<in> set (write_rows env n rows) \<Longrightarrow> r \<in> set rows"
  by (induction rows arbitrary: n) (auto split: option.splits)

lemma ProcessJSON_rows:
  assumes "ProcessJSONAndWriteToCSV env f = (e, rows)" and "r \<in> set (tl rows)"
  shows "\<exists>products breadcrumbs product. getProductDataFromFile env f = Inr (products, breadcrumbs)
           \<and> product \<in> set products \<and> hd rows = header
           \<and> r = product_row env (breadcrumbs_string breadcrumbs) product"
  using assms
  by (fastforce simp: ProcessJSONAndWriteToCSV_def dest!: write_rows_mem
      split: sum.splits option.splits if_splits prod.splits)

text \<open>
  C10. In every data row that \<^verbatim>\<open>ProcessJSONAndWriteToCSV\<close> writes, the column under the
  header \<^verbatim>\<open>SizeDetails\<close> (index 7) equals the column under \<^verbatim>\<open>AvailableSizes\<close>
  (index 6): both hold the sizes of the row's product joined by \<^verbatim>\<open>", "\<close>, or \<^verbatim>\<open>N/A\<close>
  when that string is empty, as it is for a product without sizes.
\<close>

theorem ProcessJSONAndWriteToCSV_size_columns_equal:
  assumes "ProcessJSONAndWriteToCSV env f = (e, rows)" and "r \<in> set (tl rows)"
  shows "hd rows ! 6 = ''AvailableSizes'' \<and> hd rows ! 7 = ''SizeDetails''
       \<and> r ! 6 = r ! 7
       \<and> (\<exists>products breadcrumbs product.
             getProductDataFromFile env f = Inr (products, breadcrumbs)
             \<and> product \<in> set products
             \<and> r = product_row env (breadcrumbs_string breadcrumbs) product
             \<and> r ! 6 = (if Join (Sizes product) '', '' = [] then ''N/A''
                          else Join (Sizes product) '', '')
             \<and> (Sizes product = [] \<longrightarrow> r ! 6 = ''N/A'' \<and> r ! 7 = ''N/A''))"
proof -
  from ProcessJSON_rows [OF assms]
  obtain products breadcrumbs product where
    g: "getProductDataFromFile env f = Inr (products, breadcrumbs)"
    and m: "product \<in> set products" and h: "hd rows = header"
    and r: "r = product_row env (breadcrumbs_string breadcrumbs) product"
    by blast
  have hd: "hd rows ! 6 = ''AvailableSizes'' \<and> hd rows ! 7 = ''SizeDetails''"
    using h by (simp add: header_def)
  note s = product_row_sizes [of env "breadcrumbs_string breadcrumbs" product]
  have e: "r ! 6 = r ! 7" using s unfolding r by blast
  have v: "r ! 6 = (if Join (Sizes product) '', '' = [] then ''N/A''
                          else Join (Sizes product) '', '')"
    using s unfolding r by blast
  have n: "Sizes product = [] \<longrightarrow> r ! 6 = ''N/A'' \<and> r ! 7 = ''N/A''"
  proof
    assume "Sizes product = []"
    then have "r ! 6 = ''N/A''" using v by simp
    then show "r ! 6 = ''N/A'' \<and> r ! 7 = ''N/A''" using e by simp
  qed
  from hd e g m r v n show ?thesis by blast
qed

lemma sample_rows:
  "ProcessJSONAndWriteToCSV sample_env ''sample.json'' =
     (None,
      [[''ID'', ''URL'', ''ProductName'', ''Category'', ''Price'', ''ImageURL'',
        ''AvailableSizes'', ''SizeDetails'', ''Description'', ''Keywords'', ''Breadcrumbs''],
       [''IE3437'', ''https://www.adidas.jp/products/IE3437/'', ''Samba OG'',
        ''Shoes'', ''15400.00'', ''https://img/IE3437.jpg'', ''26.0cm, 26.5cm'',
        ''26.0cm, 26.5cm'', ''Originals'', ''Lifestyle, Originals, Shoes'', ''Home > Men''],
       [''JI1234'', ''https://www.adidas.jp/products/JI1234/'', ''Cap'',
        ''N/A'', ''3300.00'', ''N/A'', ''N/A'', ''N/A'', ''N/A'', ''N/A'', ''Home > Men'']])"
  by (simp add: ProcessJSONAndWriteToCSV_def getProductDataFromFile_def sample_env_def
      sample_products_def header_def product_row_def breadcrumbs_string_def HasPrefix_def
      Let_def)

theorem ProcessJSONAndWriteToCSV_size_columns_equal_witness:
  "snd (ProcessJSONAndWriteToCSV sample_env ''sample.json'') ! 1
     \<in> set (tl (snd (ProcessJSONAndWriteToCSV sample_env ''sample.json'')))
   \<and> snd (ProcessJSONAndWriteToCSV sample_env ''sample.json'') ! 1 ! 6 = ''26.0cm, 26.5cm''
   \<and> snd (ProcessJSONAndWriteToCSV sample_env ''sample.json'') ! 1 ! 7 = ''26.0cm, 26.5cm''
   \<and> snd (ProcessJSONAndWriteToCSV sample_env ''sample.json'') ! 1 ! 6
       = snd (ProcessJSONAndWriteToCSV sample_env ''sample.json'') ! 1 ! 7
   \<and> snd (ProcessJSONAndWriteToCSV sample_env ''sample.json'') ! 2 ! 7 = ''N/A''"
proof -
  let ?P = "ProcessJSONAndWriteToCSV sample_env ''sample.json''"
  have p: "?P = (fst ?P, snd ?P)" by simp
  have m: "snd ?P ! 1 \<in> set (tl (snd ?P))"
    by (simp add: sample_rows)
  note T = ProcessJSONAndWriteToCSV_size_columns_equal [OF p m]
  from T have e: "snd ?P ! 1 ! 6 = snd ?P ! 1 ! 7" by blast
  have a: "snd ?P ! 1 ! 6 = ''26.0cm, 26.5cm''" and b: "snd ?P ! 2 ! 7 = ''N/A''"
    by (simp_all add: sample_rows)
  from m e a b show ?thesis by simp
qed

section \<open>Properties of the worker pool\<close>

lemma sum_list_update:
  fixes f :: "'a \<Rightarrow> 'b::comm_monoid_add"
  shows "i < length ws \<Longrightarrow> sum_list (map f (ws[i := v])) + f (ws ! i) = sum_list (map f ws) + f v"
proof (induction ws arbitrary: i)
  case Nil
  then show ?case by simp
next
  case (Cons w ws)
  show ?case
  proof (cases i)
    case 0
    then show ?thesis by (simp add: ac_simps)
  next
    case (Suc j)
    then have "j < length ws" using Cons.prems by simp
    from Cons.IH [OF this] Suc show ?thesis
      by (simp add: ac_simps)
  qed
qed

lemma started_snoc [simp]:
  "started (l @ [LogScraping i u]) = started l @ [u]"
  "started (l @ [LogError i u e]) = started l"
  "started (l @ [LogSuccess i u n]) = started l"
  "started [] = []"
  by (simp_all add: started_def)

lemma failed_snoc [simp]:
  "failed (l @ [LogScraping i u]) = failed l"
  "failed (l @ [LogError i u e]) = failed l @ [u]"
  "failed (l @ [LogSuccess i u n]) = failed l"
  "failed [] = []"
  by (simp_all add: failed_def)

lemma succeeded_snoc [simp]:
  "succeeded (l @ [LogScraping i u]) = succeeded l"
  "succeeded (l @ [LogError i u e]) = succeeded l"
  "succeeded (l @ [LogSuccess i u n]) = succeeded l @ [u]"
  "succeeded [] = []"
  by (simp_all add: succeeded_def)

lemma alive_sum_zero:
  "(sum_list (map alive ws) = 0) = (\<forall>w \<in> set ws. w = WExited)"
proof (induction ws)
  case Nil
  then show ?case by simp
next
  case (Cons w ws)
  then show ?case by (cases w) auto
qed

lemma alive_pos:
  "i < length ws \<Longrightarrow> ws ! i \<noteq> WExited \<Longrightarrow> sum_list (map alive ws) \<noteq> 0"
  using alive_sum_zero [of ws] nth_mem [of i ws] by auto

lemma Exited_update:
  "WExited \<in> set (ws[i := v]) \<Longrightarrow> v \<noteq> WExited \<Longrightarrow> WExited \<in> set ws"
  using set_update_subset_insert [of ws i v] by auto

lemma pool_inv_init: "pool_inv W (init_pool links)"
  by (simp add: pool_inv_def init_pool_def)

lemma pool_invD:
  assumes "pool_inv W s"
  shows "\<not> panicked s"
    and "length (workers s) = spawned W (main_at s)"
    and "wg s = sum_list (map alive (workers s)) + pending_add (main_at s)"
    and "index_in_range W (job_limit (productLinks s)) (main_at s)"
    and "jobs_closed s = jobs_closed_at (main_at s)"
    and "results_closed s = results_closed_at (main_at s)"
    and "after_wait (main_at s) \<longrightarrow> wg s = 0"
    and "started (log_lines s) @ jobs s
          = take (enqueued (job_limit (productLinks s)) (main_at s)) (productLinks s)"
    and "mset (started (log_lines s))
          = mset (failed (log_lines s)) + mset (succeeded (log_lines s))
            + sum_list (map scraping_of (workers s))"
    and "mset (succeeded (log_lines s))
          = image_mset URL (mset (finalProducts s) + mset (results s)
                             + sum_list (map sending_of (workers s)))"
    and "WExited \<in> set (workers s) \<longrightarrow> jobs s = [] \<and> jobs_closed s"
    and "main_at s = MDone \<longrightarrow> results s = []"
  using assms unfolding pool_inv_def by blast+

lemma main_step_inv:
  assumes "pool_inv W s" and "main_step W s = Some s'"
  shows "pool_inv W s'"
proof (cases "main_at s")
  case (MSpawn i)
  then show ?thesis using assms
    by (auto simp: main_step_def pool_inv_def split: if_splits)
next
  case (MGo i)
  then show ?thesis using assms
    by (auto simp: main_step_def pool_inv_def split: if_splits)
next
  case (MEnqueue i)
  then show ?thesis using assms
    by (auto simp: main_step_def pool_inv_def take_Suc_conv_app_nth job_limit_def
        split: if_splits)
next
  case MCloseJobs
  then show ?thesis using assms
    by (auto simp: main_step_def pool_inv_def split: if_splits)
next
  case MWait
  then show ?thesis using assms
    by (auto simp: main_step_def pool_inv_def split: if_splits)
next
  case MCloseResults
  then show ?thesis using assms
    by (auto simp: main_step_def pool_inv_def split: if_splits)
next
  case MDrain
  then show ?thesis using assms
    by (auto simp: main_step_def pool_inv_def split: if_splits list.splits)
next
  case MDone
  then show ?thesis using assms by (simp add: main_step_def pool_inv_def)
qed

lemma pool_inv_frame:
  assumes inv: "pool_inv W s"
    and same: "main_at s' = main_at s" "productLinks s' = productLinks s"
      "jobs_closed s' = jobs_closed s" "results_closed s' = results_closed s"
      "panicked s' = panicked s" "length (workers s') = length (workers s)"
    and wg: "wg s' = sum_list (map alive (workers s')) + pending_add (main_at s)"
    and nw: "\<not> after_wait (main_at s)"
    and queue: "started (log_lines s') @ jobs s' = started (log_lines s) @ jobs s"
    and scr: "mset (started (log_lines s'))
          = mset (failed (log_lines s')) + mset (succeeded (log_lines s'))
            + sum_list (map scraping_of (workers s'))"
    and snd: "mset (succeeded (log_lines s'))
          = image_mset URL (mset (finalProducts s') + mset (results s')
                             + sum_list (map sending_of (workers s')))"
    and ex: "WExited \<in> set (workers s') \<longrightarrow> jobs s' = [] \<and> jobs_closed s'"
  shows "pool_inv W s'"
proof -
  note D = pool_invD [OF inv]
  have nd: "main_at s \<noteq> MDone" using nw by auto
  show ?thesis
    unfolding pool_inv_def same
    using D(1,2,4,5,6) wg nw queue D(8) scr snd ex nd same(3)
    by simp
qed

lemma worker_alive_before_wait:
  assumes "pool_inv W s" and "i < length (workers s)" and "workers s ! i \<noteq> WExited"
  shows "wg s \<noteq> 0" and "\<not> after_wait (main_at s)"
proof -
  show "wg s \<noteq> 0" using pool_invD(3) [OF assms(1)] alive_pos [OF assms(2,3)] by simp
  then show "\<not> after_wait (main_at s)" using pool_invD(7) [OF assms(1)] by auto
qed

lemma worker_step_enabled:
  assumes "worker_step wid b s = Some s'"
  shows "\<not> panicked s" and "1 \<le> wid" and "wid - 1 < length (workers s)"
  using assms by (auto simp: worker_step_def split: if_splits)

lemma worker_step_at:
  assumes "\<not> panicked s" and "1 \<le> wid" and "wid - 1 < length (workers s)"
  shows "worker_step wid b s =
     (case workers s ! (wid - 1) of
        WRange \<Rightarrow>
          (case jobs s of
             url # rest \<Rightarrow>
               Some (s\<lparr>jobs := rest,
                       log_lines := log_lines s @ [LogScraping wid url],
                       workers := (workers s)[wid - 1 := WScrape url]\<rparr>)
           | [] \<Rightarrow>
               if jobs_closed s
               then (if wg s = 0 then Some (s\<lparr>panicked := True\<rparr>)
                     else Some (s\<lparr>wg := wg s - 1, workers := (workers s)[wid - 1 := WExited]\<rparr>))
               else None)
      | WScrape url \<Rightarrow>
          (case scrapeProductPage b url of
             (product, Some e, performed) \<Rightarrow>
               Some (s\<lparr>log_lines := log_lines s @ [LogError wid url e],
                       workers := (workers s)[wid - 1 := WRange]\<rparr>)
           | (product, None, performed) \<Rightarrow>
               Some (s\<lparr>log_lines := log_lines s @ [LogSuccess wid url (Name product)],
                       workers := (workers s)[wid - 1 := WSend product]\<rparr>))
      | WSend product \<Rightarrow>
          if results_closed s then Some (s\<lparr>panicked := True\<rparr>)
          else if length (results s) < length (productLinks s)
          then Some (s\<lparr>results := results s @ [product],
                       workers := (workers s)[wid - 1 := WRange]\<rparr>)
          else None
      | WExited \<Rightarrow> None)"
  using assms by (auto simp: worker_step_def)

lemma worker_exit_inv:
  assumes inv: "pool_inv W s" and i: "i < length (workers s)"
    and at: "workers s ! i = WRange" and empty: "jobs s = []" and closed: "jobs_closed s"
  shows "wg s \<noteq> 0"
    and "pool_inv W (s\<lparr>wg := wg s - 1, workers := (workers s)[i := WExited]\<rparr>)"
proof -
  note D = pool_invD [OF inv]
  note U = sum_list_update [OF i]
  have live: "workers s ! i \<noteq> WExited" using at by simp
  show pos: "wg s \<noteq> 0" using worker_alive_before_wait(1) [OF inv i live] .
  have nw: "\<not> after_wait (main_at s)" using worker_alive_before_wait(2) [OF inv i live] .
  have a: "sum_list (map alive ((workers s)[i := WExited])) + 1 = sum_list (map alive (workers s))"
    using U [of alive WExited] at by simp
  have b: "sum_list (map scraping_of ((workers s)[i := WExited]))
             = sum_list (map scraping_of (workers s))"
    using U [of scraping_of WExited] at by simp
  have c: "sum_list (map sending_of ((workers s)[i := WExited]))
             = sum_list (map sending_of (workers s))"
    using U [of sending_of WExited] at by simp
  have w: "wg s - 1 = sum_list (map alive ((workers s)[i := WExited])) + pending_add (main_at s)"
    using D(3) a by simp
  show "pool_inv W (s\<lparr>wg := wg s - 1, workers := (workers s)[i := WExited]\<rparr>)"
    by (rule pool_inv_frame [OF inv]) (use w in \<open>simp_all add: nw b c D(9) D(10) empty closed\<close>)
qed

lemma worker_take_inv:
  assumes inv: "pool_inv W s" and i: "i < length (workers s)"
    and at: "workers s ! i = WRange" and job: "jobs s = url # rest"
  shows "pool_inv W (s\<lparr>jobs := rest, log_lines := log_lines s @ [LogScraping wid url],
                       workers := (workers s)[i := WScrape url]\<rparr>)"
proof -
  note D = pool_invD [OF inv]
  note U = sum_list_update [OF i]
  have live: "workers s ! i \<noteq> WExited" using at by simp
  have nw: "\<not> after_wait (main_at s)" using worker_alive_before_wait(2) [OF inv i live] .
  have a: "sum_list (map alive ((workers s)[i := WScrape url])) = sum_list (map alive (workers s))"
    using U [of alive "WScrape url"] at by simp
  have b: "sum_list (map scraping_of ((workers s)[i := WScrape url]))
             = sum_list (map scraping_of (workers s)) + {#url#}"
    using U [of scraping_of "WScrape url"] at by simp
  have c: "sum_list (map sending_of ((workers s)[i := WScrape url]))
             = sum_list (map sending_of (workers s))"
    using U [of sending_of "WScrape url"] at by simp
  have ne: "WExited \<notin> set (workers s)" using D(11) job by auto
  then have ne': "WExited \<notin> set ((workers s)[i := WScrape url])"
    using Exited_update [of "workers s" i "WScrape url"] by auto
  show ?thesis
    by (rule pool_inv_frame [OF inv]) (simp_all add: a b c nw D(3) D(9) D(10) ne' job)
qed

lemma worker_fail_inv:
  assumes inv: "pool_inv W s" and i: "i < length (workers s)"
    and at: "workers s ! i = WScrape url"
  shows "pool_inv W (s\<lparr>log_lines := log_lines s @ [LogError wid url e],
                       workers := (workers s)[i := WRange]\<rparr>)"
proof -
  note D = pool_invD [OF inv]
  note U = sum_list_update [OF i]
  have live: "workers s ! i \<noteq> WExited" using at by simp
  have nw: "\<not> after_wait (main_at s)" using worker_alive_before_wait(2) [OF inv i live] .
  have a: "sum_list (map alive ((workers s)[i := WRange])) = sum_list (map alive (workers s))"
    using U [of alive WRange] at by simp
  have b: "sum_list (map scraping_of (workers s))
             = sum_list (map scraping_of ((workers s)[i := WRange])) + {#url#}"
    using U [of scraping_of WRange] at by simp
  have c: "sum_list (map sending_of ((workers s)[i := WRange]))
             = sum_list (map sending_of (workers s))"
    using U [of sending_of WRange] at by simp
  have ne': "WExited \<in> set ((workers s)[i := WRange]) \<longrightarrow> WExited \<in> set (workers s)"
    using Exited_update [of "workers s" i WRange] by auto
  show ?thesis
    by (rule pool_inv_frame [OF inv]) (use ne' D(11) in \<open>simp_all add: a b c nw D(3) D(9) D(10)\<close>)
qed

lemma worker_success_inv:
  assumes inv: "pool_inv W s" and i: "i < length (workers s)"
    and at: "workers s ! i = WScrape url" and u: "URL product = url"
  shows "pool_inv W (s\<lparr>log_lines := log_lines s @ [LogSuccess wid url n],
                       workers := (workers s)[i := WSend product]\<rparr>)"
proof -
  note D = pool_invD [OF inv]
  note U = sum_list_update [OF i]
  have live: "workers s ! i \<noteq> WExited" using at by simp
  have nw: "\<not> after_wait (main_at s)" using worker_alive_before_wait(2) [OF inv i live] .
  have a: "sum_list (map alive ((workers s)[i := WSend product])) = sum_list (map alive (workers s))"
    using U [of alive "WSend product"] at by simp
  have b: "sum_list (map scraping_of (workers s))
             = sum_list (map scraping_of ((workers s)[i := WSend product])) + {#url#}"
    using U [of scraping_of "WSend product"] at by simp
  have c: "sum_list (map sending_of ((workers s)[i := WSend product]))
             = sum_list (map sending_of (workers s)) + {#product#}"
    using U [of sending_of "WSend product"] at by simp
  have ne': "WExited \<in> set ((workers s)[i := WSend product]) \<longrightarrow> WExited \<in> set (workers s)"
    using Exited_update [of "workers s" i "WSend product"] by auto
  show ?thesis
    by (rule pool_inv_frame [OF inv]) (use ne' D(11) in \<open>simp_all add: a b c u nw D(3) D(9) D(10)\<close>)
qed

lemma worker_send_inv:
  assumes inv: "pool_inv W s" and i: "i < length (workers s)"
    and at: "workers s ! i = WSend product"
  shows "\<not> results_closed s"
    and "pool_inv W (s\<lparr>results := results s @ [product],
                       workers := (workers s)[i := WRange]\<rparr>)"
proof -
  note D = pool_invD [OF inv]
  note U = sum_list_update [OF i]
  have live: "workers s ! i \<noteq> WExited" using at by simp
  have nw: "\<not> after_wait (main_at s)" using worker_alive_before_wait(2) [OF inv i live] .
  then show "\<not> results_closed s" using D(6) by (cases "main_at s") auto
  have a: "sum_list (map alive ((workers s)[i := WRange])) = sum_list (map alive (workers s))"
    using U [of alive WRange] at by simp
  have b: "sum_list (map scraping_of ((workers s)[i := WRange]))
             = sum_list (map scraping_of (workers s))"
    using U [of scraping_of WRange] at by simp
  have c: "sum_list (map sending_of (workers s))
             = sum_list (map sending_of ((workers s)[i := WRange])) + {#product#}"
    using U [of sending_of WRange] at by simp
  have ne': "WExited \<in> set ((workers s)[i := WRange]) \<longrightarrow> WExited \<in> set (workers s)"
    using Exited_update [of "workers s" i WRange] by auto
  show "pool_inv W (s\<lparr>results := results s @ [product],
                       workers := (workers s)[i := WRange]\<rparr>)"
    by (rule pool_inv_frame [OF inv]) (use ne' D(11) in \<open>simp_all add: a b c nw D(3) D(9) D(10)\<close>)
qed

lemma worker_step_inv:
  assumes inv: "pool_inv W s" and st: "worker_step wid b s = Some s'"
  shows "pool_inv W s'"
proof -
  note E = worker_step_enabled [OF st]
  note A = worker_step_at [OF E, of b]
  show ?thesis
  proof (cases "workers s ! (wid - 1)")
    case WRange
    show ?thesis
    proof (cases "jobs s")
      case Nil
      show ?thesis
      proof (cases "jobs_closed s")
        case True
        note X = worker_exit_inv [OF inv E(3) WRange Nil True]
        from st A WRange Nil True X(1)
        have "s' = s\<lparr>wg := wg s - 1, workers := (workers s)[wid - 1 := WExited]\<rparr>"
          by simp
        then show ?thesis using X(2) by simp
      next
        case False
        then show ?thesis using st A WRange Nil by simp
      qed
    next
      case (Cons url rest)
      from st A WRange Cons
      have "s' = s\<lparr>jobs := rest, log_lines := log_lines s @ [LogScraping wid url],
                     workers := (workers s)[wid - 1 := WScrape url]\<rparr>"
        by simp
      then show ?thesis using worker_take_inv [OF inv E(3) WRange Cons] by simp
    qed
  next
    case (WScrape url)
    obtain product e performed where r: "scrapeProductPage b url = (product, e, performed)"
      by (cases "scrapeProductPage b url") auto
    show ?thesis
    proof (cases e)
      case None
      have u: "URL product = url"
        using scrapeProductPage_success_identity r None by blast
      from st A WScrape r None
      have "s' = s\<lparr>log_lines := log_lines s @ [LogSuccess wid url (Name product)],
                     workers := (workers s)[wid - 1 := WSend product]\<rparr>"
        by simp
      then show ?thesis using worker_success_inv [OF inv E(3) WScrape u] by simp
    next
      case (Some x)
      from st A WScrape r Some
      have "s' = s\<lparr>log_lines := log_lines s @ [LogError wid url x],
                     workers := (workers s)[wid - 1 := WRange]\<rparr>"
        by simp
      then show ?thesis using worker_fail_inv [OF inv E(3) WScrape] by simp
    qed
  next
    case (WSend product)
    note X = worker_send_inv [OF inv E(3) WSend]
    from st A WSend X(1)
    have "s' = s\<lparr>results := results s @ [product], workers := (workers s)[wid - 1 := WRange]\<rparr>"
      by (simp split: if_splits)
    then show ?thesis using X(2) by simp
  next
    case WExited
    then show ?thesis using st A by simp
  qed
qed

lemma pool_step_inv: "pool_inv W s \<Longrightarrow> pool_step W e s = Some s' \<Longrightarrow> pool_inv W s'"
  by (cases e) (auto simp: pool_step_def intro: main_step_inv worker_step_inv)

lemma pool_exec_inv: "pool_inv W s \<Longrightarrow> pool_inv W (pool_exec W es s)"
proof (induction es arbitrary: s)
  case Nil
  then show ?case by simp
next
  case (Cons e es)
  show ?case
  proof (cases "pool_step W e s")
    case None
    then show ?thesis using Cons by simp
  next
    case (Some s')
    then have "pool_inv W s'" using Cons.prems pool_step_inv by blast
    then show ?thesis using Cons.IH Some by simp
  qed
qed

lemma pool_reachable_inv: "pool_inv W (pool_exec W es (init_pool links))"
  by (rule pool_exec_inv [OF pool_inv_init])

lemma pool_step_links: "pool_step W e s = Some s' \<Longrightarrow> productLinks s' = productLinks s"
  by (cases e)
    (auto simp: pool_step_def main_step_def worker_step_def
      split: if_splits main_pc.splits worker_pc.splits list.splits prod.splits option.splits)

lemma pool_exec_links: "productLinks (pool_exec W es s) = productLinks s"
proof (induction es arbitrary: s)
  case Nil
  then show ?case by simp
next
  case (Cons e es)
  then show ?case
    by (cases "pool_step W e s") (simp_all add: pool_step_links)
qed

lemma pool_exec_append: "pool_exec W (es @ es') s = pool_exec W es' (pool_exec W es s)"
  by (induction es arbitrary: s) simp_all

lemma all_exited_sums:
  "\<forall>w \<in> set ws. w = WExited \<Longrightarrow>
     sum_list (map scraping_of ws) = {#} \<and> sum_list (map sending_of ws) = {#}"
  by (induction ws) auto

lemma after_wait_all_exited:
  assumes inv: "pool_inv W s" and aw: "after_wait (main_at s)"
  shows "\<forall>w \<in> set (workers s). w = WExited" and "length (workers s) = W" and "wg s = 0"
proof -
  note D = pool_invD [OF inv]
  show z: "wg s = 0" using D(7) aw by simp
  then have "sum_list (map alive (workers s)) = 0" using D(3) by simp
  then show "\<forall>w \<in> set (workers s). w = WExited" using alive_sum_zero [of "workers s"] by blast
  show "length (workers s) = W" using D(2) aw by (cases "main_at s") auto
qed

lemma started_length_le:
  assumes inv: "pool_inv W s"
  shows "length (started (log_lines s)) + length (jobs s) \<le> job_limit (productLinks s)"
proof -
  note D = pool_invD [OF inv]
  have "length (started (log_lines s) @ jobs s)
          = length (take (enqueued (job_limit (productLinks s)) (main_at s)) (productLinks s))"
    using D(8) by simp
  moreover have "enqueued (job_limit (productLinks s)) (main_at s) \<le> job_limit (productLinks s)"
    using D(4) by (cases "main_at s") auto
  ultimately show ?thesis by (simp add: job_limit_def)
qed

lemma started_distinct:
  assumes inv: "pool_inv W s" and d: "distinct (productLinks s)"
  shows "distinct (started (log_lines s))"
proof -
  have "distinct (started (log_lines s) @ jobs s)"
    using pool_invD(8) [OF inv] d by (simp add: distinct_take)
  then show ?thesis by simp
qed

lemma records_within_started:
  assumes inv: "pool_inv W s"
  shows "mset (failed (log_lines s)) + image_mset URL (mset (finalProducts s) + mset (results s))
           \<subseteq># mset (started (log_lines s))"
proof -
  note D = pool_invD [OF inv]
  show ?thesis unfolding D(9) D(10) by (simp add: subset_mset.add_increasing2)
qed

lemma pool_done:
  assumes inv: "pool_inv W s" and dn: "main_at s = MDone" and W: "0 < W"
  shows "jobs s = []" and "results s = []"
    and "started (log_lines s) = take (job_limit (productLinks s)) (productLinks s)"
    and "mset (started (log_lines s))
           = mset (failed (log_lines s)) + image_mset URL (mset (finalProducts s))"
proof -
  note D = pool_invD [OF inv]
  have aw: "after_wait (main_at s)" using dn by simp
  note X = after_wait_all_exited [OF inv aw]
  have "workers s \<noteq> []" using X(2) W by auto
  then obtain w where "w \<in> set (workers s)" by (cases "workers s") auto
  then have "WExited \<in> set (workers s)" using X(1) by auto
  then show j: "jobs s = []" using D(11) by simp
  show r: "results s = []" using D(12) dn by simp
  show "started (log_lines s) = take (job_limit (productLinks s)) (productLinks s)"
    using D(8) j dn by simp
  note Z = all_exited_sums [OF X(1)]
  show "mset (started (log_lines s))
           = mset (failed (log_lines s)) + image_mset URL (mset (finalProducts s))"
    using D(9) D(10) Z r by simp
qed

lemma main_step_decreases:
  assumes inv: "pool_inv W s" and st: "main_step W s = Some s'"
  shows "pool_measure W s' < pool_measure W s"
proof -
  have inv': "pool_inv W s'" using main_step_inv [OF inv st] .
  note D = pool_invD [OF inv]
  note D' = pool_invD [OF inv']
  show ?thesis
  proof (cases "main_at s")
    case (MSpawn i)
    then show ?thesis using st D(1) D(4)
      by (auto simp: main_step_def pool_measure_def split: if_splits)
  next
    case (MGo i)
    then show ?thesis using st D(1) D(4)
      by (auto simp: main_step_def pool_measure_def split: if_splits)
  next
    case (MEnqueue i)
    then show ?thesis using st D(1) D'(1)
      by (auto simp: main_step_def pool_measure_def job_limit_def split: if_splits)
  next
    case MCloseJobs
    then show ?thesis using st D(1) D'(1)
      by (auto simp: main_step_def pool_measure_def split: if_splits)
  next
    case MWait
    then show ?thesis using st D(1) D'(1)
      by (auto simp: main_step_def pool_measure_def split: if_splits)
  next
    case MCloseResults
    then show ?thesis using st D(1) D'(1)
      by (auto simp: main_step_def pool_measure_def split: if_splits)
  next
    case MDrain
    then show ?thesis using st D(1) D'(1)
      by (auto simp: main_step_def pool_measure_def split: if_splits list.splits)
  next
    case MDone
    then show ?thesis using st D(1) by (simp add: main_step_def)
  qed
qed

lemma worker_step_decreases:
  assumes inv: "pool_inv W s" and st: "worker_step wid b s = Some s'"
  shows "pool_measure W s' < pool_measure W s"
proof -
  have inv': "pool_inv W s'" using worker_step_inv [OF inv st] .
  have np': "\<not> panicked s'" using pool_invD(1) [OF inv'] .
  note E = worker_step_enabled [OF st]
  note A = worker_step_at [OF E, of b]
  note U = sum_list_update [OF E(3), of worker_rank]
  show ?thesis
  proof (cases "workers s ! (wid - 1)")
    case WRange
    show ?thesis
    proof (cases "jobs s")
      case Nil
      from st A WRange Nil np'
      have s': "s' = s\<lparr>wg := wg s - 1, workers := (workers s)[wid - 1 := WExited]\<rparr>"
        by (auto split: if_splits)
      show ?thesis unfolding s' using U [of WExited] WRange
        by (simp add: pool_measure_def)
    next
      case (Cons url rest)
      from st A WRange Cons
      have s': "s' = s\<lparr>jobs := rest, log_lines := log_lines s @ [LogScraping wid url],
                     workers := (workers s)[wid - 1 := WScrape url]\<rparr>"
        by simp
      show ?thesis unfolding s' using U [of "WScrape url"] WRange Cons
        by (simp add: pool_measure_def)
    qed
  next
    case (WScrape url)
    obtain product e performed where r: "scrapeProductPage b url = (product, e, performed)"
      by (cases "scrapeProductPage b url") auto
    show ?thesis
    proof (cases e)
      case None
      from st A WScrape r None
      have s': "s' = s\<lparr>log_lines := log_lines s @ [LogSuccess wid url (Name product)],
                     workers := (workers s)[wid - 1 := WSend product]\<rparr>"
        by simp
      show ?thesis unfolding s' using U [of "WSend product"] WScrape
        by (simp add: pool_measure_def)
    next
      case (Some x)
      from st A WScrape r Some
      have s': "s' = s\<lparr>log_lines := log_lines s @ [LogError wid url x],
                     workers := (workers s)[wid - 1 := WRange]\<rparr>"
        by simp
      show ?thesis unfolding s' using U [of WRange] WScrape
        by (simp add: pool_measure_def)
    qed
  next
    case (WSend product)
    from st A WSend np'
    have s': "s' = s\<lparr>results := results s @ [product], workers := (workers s)[wid - 1 := WRange]\<rparr>"
      by (auto split: if_splits)
    show ?thesis unfolding s' using U [of WRange] WSend
      by (simp add: pool_measure_def)
  next
    case WExited
    then show ?thesis using st A by simp
  qed
qed

lemma pool_step_decreases:
  "pool_inv W s \<Longrightarrow> pool_step W e s = Some s' \<Longrightarrow> pool_measure W s' < pool_measure W s"
  by (cases e) (auto simp: pool_step_def intro: main_step_decreases worker_step_decreases)

lemma main_step_at:
  "\<not> panicked s \<Longrightarrow> main_step W s =
     (case main_at s of
        MSpawn i \<Rightarrow>
          if i \<le> W then Some (s\<lparr>wg := wg s + 1, main_at := MGo i\<rparr>)
          else Some (s\<lparr>main_at := MEnqueue 0\<rparr>)
      | MGo i \<Rightarrow> Some (s\<lparr>workers := workers s @ [WRange], main_at := MSpawn (i + 1)\<rparr>)
      | MEnqueue i \<Rightarrow>
          if i < length (productLinks s) \<and> \<not> i \<ge> productTarget
          then (if jobs_closed s then Some (s\<lparr>panicked := True\<rparr>)
                else if length (jobs s) < length (productLinks s)
                then Some (s\<lparr>jobs := jobs s @ [productLinks s ! i], main_at := MEnqueue (i + 1)\<rparr>)
                else None)
          else Some (s\<lparr>main_at := MCloseJobs\<rparr>)
      | MCloseJobs \<Rightarrow>
          if jobs_closed s then Some (s\<lparr>panicked := True\<rparr>)
          else Some (s\<lparr>jobs_closed := True, main_at := MWait\<rparr>)
      | MWait \<Rightarrow> if wg s = 0 then Some (s\<lparr>main_at := MCloseResults\<rparr>) else None
      | MCloseResults \<Rightarrow>
          if results_closed s then Some (s\<lparr>panicked := True\<rparr>)
          else Some (s\<lparr>results_closed := True, main_at := MDrain\<rparr>)
      | MDrain \<Rightarrow>
          (case results s of
             product # rest \<Rightarrow>
               Some (s\<lparr>results := rest, finalProducts := finalProducts s @ [product]\<rparr>)
           | [] \<Rightarrow> if results_closed s then Some (s\<lparr>main_at := MDone\<rparr>) else None)
      | MDone \<Rightarrow> None)"
  by (simp add: main_step_def)

lemma results_room:
  assumes inv: "pool_inv W s" and i: "i < length (workers s)"
    and at: "workers s ! i = WSend product"
  shows "length (results s) < length (productLinks s)"
proof -
  note D = pool_invD [OF inv]
  have "sum_list (map sending_of ((workers s)[i := WRange])) + {#product#}
          = sum_list (map sending_of (workers s))"
    using sum_list_update [OF i, of sending_of WRange] at by simp
  then have "size (sum_list (map sending_of (workers s)))
      = size (sum_list (map sending_of ((workers s)[i := WRange])) + {#product#})"
    by simp
  then have "size (sum_list (map sending_of (workers s))) \<ge> 1"
    by simp
  moreover have "size (mset (succeeded (log_lines s)))
      = length (finalProducts s) + length (results s)
        + size (sum_list (map sending_of (workers s)))"
    unfolding D(10) by simp
  moreover have "size (mset (succeeded (log_lines s))) \<le> size (mset (started (log_lines s)))"
    unfolding D(9) by simp
  moreover have "length (started (log_lines s)) \<le> length (productLinks s)"
    using started_length_le [OF inv] by (simp add: job_limit_def)
  ultimately show ?thesis by simp
qed

lemma pool_progress:
  assumes inv: "pool_inv W s" and nd: "main_at s \<noteq> MDone"
  shows "\<exists>e s'. pool_step W e s = Some s'"
proof -
  note D = pool_invD [OF inv]
  note M = main_step_at [OF D(1), of W]
  have main_enabled: "main_step W s \<noteq> None \<Longrightarrow> ?thesis"
  proof -
    assume "main_step W s \<noteq> None"
    then obtain s' where "main_step W s = Some s'" by auto
    then have "pool_step W MainStep s = Some s'" by (simp add: pool_step_def)
    then show ?thesis by blast
  qed
  show ?thesis
  proof (cases "main_at s")
    case (MSpawn i)
    then show ?thesis using M main_enabled by simp
  next
    case (MGo i)
    then show ?thesis using M main_enabled by simp
  next
    case (MEnqueue i)
    have "length (started (log_lines s) @ jobs s) = length (take i (productLinks s))"
      using D(8) MEnqueue by simp
    then have "length (jobs s) \<le> i" by simp
    then show ?thesis using M main_enabled MEnqueue D(5) by simp
  next
    case MCloseJobs
    then show ?thesis using M main_enabled D(5) by simp
  next
    case MWait
    show ?thesis
    proof (cases "wg s = 0")
      case True
      then show ?thesis using M main_enabled MWait by simp
    next
      case False
      then have "sum_list (map alive (workers s)) \<noteq> 0" using D(3) MWait by simp
      then obtain w where w: "w \<in> set (workers s)" "w \<noteq> WExited"
        using alive_sum_zero [of "workers s"] by auto
      then obtain i where i: "i < length (workers s)" "workers s ! i = w"
        by (auto simp: in_set_conv_nth)
      have E: "\<not> panicked s" "1 \<le> Suc i" "Suc i - 1 < length (workers s)"
        using D(1) i by simp_all
      note A = worker_step_at [OF E]
      have closed: "jobs_closed s" using D(5) MWait by simp
      have "worker_step (Suc i) (\<lambda>a. Inr []) s \<noteq> None"
      proof (cases w)
        case WRange
        then show ?thesis using A [of "\<lambda>a. Inr []"] i closed False
          by (cases "jobs s") simp_all
      next
        case (WScrape url)
        then show ?thesis using A [of "\<lambda>a. Inr []"] i
          by (cases "scrapeProductPage (\<lambda>a. Inr []) url" rule: prod_cases3)
            (auto split: option.splits)
      next
        case (WSend product)
        have "length (results s) < length (productLinks s)"
          using results_room [OF inv i(1)] i(2) WSend by simp
        moreover have "\<not> results_closed s" using D(6) MWait by simp
        ultimately show ?thesis using A [of "\<lambda>a. Inr []"] i WSend by simp
      next
        case WExited
        then show ?thesis using w by simp
      qed
      then obtain s' where "worker_step (Suc i) (\<lambda>a. Inr []) s = Some s'" by auto
      then have "pool_step W (WorkerStep (Suc i) (\<lambda>a. Inr [])) s = Some s'"
        by (simp add: pool_step_def)
      then show ?thesis by blast
    qed
  next
    case MCloseResults
    then show ?thesis using M main_enabled D(6) by simp
  next
    case MDrain
    then show ?thesis using M main_enabled D(6) by (cases "results s") simp_all
  next
    case MDone
    then show ?thesis using nd by simp
  qed
qed

lemma pool_completes:
  "pool_inv W s \<Longrightarrow> \<exists>es. main_at (pool_exec W es s) = MDone"
proof (induction "pool_measure W s" arbitrary: s rule: less_induct)
  case less
  show ?case
  proof (cases "main_at s = MDone")
    case True
    then have "main_at (pool_exec W [] s) = MDone" by simp
    then show ?thesis by blast
  next
    case False
    from pool_progress [OF less.prems False]
    obtain e s' where st: "pool_step W e s = Some s'" by blast
    have "pool_measure W s' < pool_measure W s"
      using pool_step_decreases [OF less.prems st] .
    moreover have "pool_inv W s'" using pool_step_inv [OF less.prems st] .
    ultimately obtain es where "main_at (pool_exec W es s') = MDone"
      using less.hyps by blast
    then have "main_at (pool_exec W (e # es) s) = MDone" using st by simp
    then show ?thesis by blast
  qed
qed

lemma sample_run:
  "pool_exec numWorkers sample_schedule (init_pool sample_links) =
     \<lparr>productLinks = sample_links, main_at = MDone,
      workers = [WExited, WExited, WExited, WExited], jobs = [], jobs_closed = True,
      results = [], results_closed = True, wg = 0,
      finalProducts = [fst (scrapeProductPage browser_ok ''https://shop.adidas.jp/products/A1/'')],
      log_lines = [LogScraping 1 ''https://shop.adidas.jp/products/A1/'',
                   LogSuccess 1 ''https://shop.adidas.jp/products/A1/'' ''text'',
                   LogScraping 2 ''https://shop.adidas.jp/products/B2/'',
                   LogError 2 ''https://shop.adidas.jp/products/B2/''
                     ''browser actions failed: context deadline exceeded''],
      panicked = False\<rparr>"
  by (simp add: sample_schedule_def sample_links_def init_pool_def numWorkers_def
      pool_step_def main_step_def worker_step_def productTarget_def eval_nat_numeral
      scrapeProductPage_def tasks_def browser_ok_def browser_not_ready_def Let_def no_dest_def)

lemma many_links_length: "length (many_links n) = n"
  by (simp add: many_links_def)

lemma many_links_distinct: "distinct (many_links n)"
proof -
  have "inj (\<lambda>k. ''https://shop.adidas.jp/products/'' @ replicate k CHR ''a'' @ ''/'')"
  proof (rule injI)
    fix x y :: nat
    assume "''https://shop.adidas.jp/products/'' @ replicate x CHR ''a'' @ ''/''
          = ''https://shop.adidas.jp/products/'' @ replicate y CHR ''a'' @ ''/''"
    then have "length (replicate x CHR ''a'' @ ''/'') = length (replicate y CHR ''a'' @ ''/'')"
      by simp
    then show "x = y" by simp
  qed
  then show ?thesis
    unfolding many_links_def by (simp add: distinct_map inj_on_def inj_def)
qed

lemma main_spawn_run:
  "pool_exec numWorkers (replicate 9 MainStep) (init_pool links) =
     (init_pool links)\<lparr>workers := [WRange, WRange, WRange, WRange], wg := 4,
                        main_at := MEnqueue 0\<rparr>"
  by (simp add: init_pool_def numWorkers_def pool_step_def main_step_def eval_nat_numeral)

lemma main_enqueue_run:
  assumes "main_at s = MEnqueue 0" and "jobs s = []" and "\<not> panicked s" and "\<not> jobs_closed s"
    and "k \<le> job_limit (productLinks s)"
  shows "pool_exec W (replicate k MainStep) s
           = s\<lparr>jobs := take k (productLinks s), main_at := MEnqueue k\<rparr>"
  using assms(5)
proof (induction k)
  case 0
  then show ?case using assms(1,2) by simp
next
  case (Suc k)
  then have k: "k < length (productLinks s)" "k < productTarget"
    by (simp_all add: job_limit_def)
  have "replicate (Suc k) MainStep = replicate k MainStep @ [MainStep]"
    by (simp add: replicate_append_same)
  then have "pool_exec W (replicate (Suc k) MainStep) s
          = pool_exec W [MainStep] (pool_exec W (replicate k MainStep) s)"
    by (simp only: pool_exec_append)
  also have "\<dots> = pool_exec W [MainStep]
                       (s\<lparr>jobs := take k (productLinks s), main_at := MEnqueue k\<rparr>)"
    using Suc by simp
  also have "\<dots> = s\<lparr>jobs := take (Suc k) (productLinks s), main_at := MEnqueue (Suc k)\<rparr>"
    using k assms(3,4)
    by (simp add: pool_step_def main_step_def take_Suc_conv_app_nth)
  finally show ?case .
qed

lemma main_only_run:
  assumes "productTarget < length links"
  shows "pool_exec numWorkers (replicate 261 MainStep) (init_pool links) =
     (init_pool links)\<lparr>workers := [WRange, WRange, WRange, WRange], wg := 4,
                        jobs := take productTarget links, jobs_closed := True,
                        main_at := MWait\<rparr>"
proof -
  let ?s1 = "(init_pool links)\<lparr>workers := [WRange, WRange, WRange, WRange], wg := 4,
                        main_at := MEnqueue 0\<rparr>"
  have "(261::nat) = 9 + (250 + 2)" by simp
  then have "replicate 261 MainStep
      = replicate 9 MainStep @ replicate 250 MainStep @ replicate 2 MainStep"
    by (simp only: replicate_add)
  then have split: "replicate 261 MainStep
      = replicate 9 MainStep @ replicate 250 MainStep @ [MainStep, MainStep]"
    by (simp add: numeral_2_eq_2)
  have e: "pool_exec numWorkers (replicate 250 MainStep) ?s1
      = ?s1\<lparr>jobs := take 250 (productLinks ?s1), main_at := MEnqueue 250\<rparr>"
    by (rule main_enqueue_run) (use assms in \<open>simp_all add: init_pool_def job_limit_def productTarget_def\<close>)
  show ?thesis
    unfolding split pool_exec_append main_spawn_run e
    using assms
    by (simp add: init_pool_def pool_step_def main_step_def productTarget_def)
qed

lemma count_le_1_distinct: "distinct xs \<Longrightarrow> count (mset xs) a \<le> 1"
  by (induction xs) auto

lemma distinct_count_le_1: "(\<And>a. count (mset xs) a \<le> 1) \<Longrightarrow> distinct xs"
proof (induction xs)
  case Nil
  then show ?case by simp
next
  case (Cons x xs)
  have x: "x \<notin> set xs"
  proof
    assume "x \<in> set xs"
    then have "count (mset xs) x \<ge> 1" by (simp add: count_greater_eq_one_iff)
    then show False using Cons.prems [of x] by simp
  qed
  have "\<And>a. count (mset xs) a \<le> 1"
  proof -
    fix a
    have "count (mset xs) a \<le> count (mset (x # xs)) a" by simp
    then show "count (mset xs) a \<le> 1" using Cons.prems [of a] by linarith
  qed
  then show ?case using Cons.IH x by simp
qed

lemma distinct_sublist_mset:
  assumes "mset xs \<subseteq># mset ys" and "distinct ys"
  shows "distinct xs"
proof (rule distinct_count_le_1)
  fix a
  have "count (mset xs) a \<le> count (mset ys) a" using assms(1) by (rule mset_subset_eq_count)
  then show "count (mset xs) a \<le> 1" using count_le_1_distinct [OF assms(2), of a] by linarith
qed

lemma distinct_records:
  assumes inv: "pool_inv W s" and d: "distinct (productLinks s)"
  shows "distinct (map URL (finalProducts s))" and "distinct (finalProducts s)"
proof -
  have "image_mset URL (mset (finalProducts s))
          \<subseteq># mset (failed (log_lines s))
              + image_mset URL (mset (finalProducts s) + mset (results s))"
    by simp
  then have "image_mset URL (mset (finalProducts s)) \<subseteq># mset (started (log_lines s))"
    using records_within_started [OF inv] by (rule subset_mset.order_trans)
  then have "mset (map URL (finalProducts s)) \<subseteq># mset (started (log_lines s))" by simp
  then show "distinct (map URL (finalProducts s))"
    using started_distinct [OF inv d] by (rule distinct_sublist_mset)
  then show "distinct (finalProducts s)" by (simp add: distinct_map)
qed

lemma failed_has_no_record:
  assumes inv: "pool_inv W s" and d: "distinct (productLinks s)"
    and u: "u \<in> set (failed (log_lines s))"
  shows "u \<in> set (started (log_lines s))" and "u \<notin> set (jobs s)"
    and "u \<notin> URL ` set (results s)" and "u \<notin> URL ` set (finalProducts s)"
proof -
  note D = pool_invD [OF inv]
  have ds: "distinct (started (log_lines s) @ jobs s)"
    using D(8) d by (simp add: distinct_take)
  have "distinct (started (log_lines s))" using ds by simp
  then have c1: "count (mset (started (log_lines s))) u \<le> 1"
    by (rule count_le_1_distinct)
  have cf: "count (mset (failed (log_lines s))) u \<ge> 1"
    using u by (simp add: count_greater_eq_one_iff)
  have "count (mset (started (log_lines s))) u
          = count (mset (failed (log_lines s))) u + count (mset (succeeded (log_lines s))) u
            + count (sum_list (map scraping_of (workers s))) u"
    using D(9) by simp
  then have st: "count (mset (started (log_lines s))) u \<ge> 1"
    and su: "count (mset (succeeded (log_lines s))) u = 0"
    using c1 cf by linarith+
  show s: "u \<in> set (started (log_lines s))"
    using st by (simp add: count_greater_eq_one_iff)
  show "u \<notin> set (jobs s)" using ds s by auto
  have "count (image_mset URL (mset (finalProducts s) + mset (results s)
                             + sum_list (map sending_of (workers s)))) u = 0"
    using su D(10) by simp
  then have "u \<notin># image_mset URL (mset (finalProducts s) + mset (results s)
                             + sum_list (map sending_of (workers s)))"
    by (simp add: count_eq_zero_iff)
  then show "u \<notin> URL ` set (results s)" and "u \<notin> URL ` set (finalProducts s)"
    by auto
qed

text \<open>
  C6. Whatever the schedule, the pool never panics (so no worker ever sends on the closed
  \<open>results\<close> channel), and in every state in which \<open>results\<close> is closed, or in which the
  main goroutine is about to close it, all workers have been started and have returned,
  the wait-group counter is zero, and no worker can take another step.
\<close>

theorem results_closed_only_after_workers_exit:
  "\<not> panicked (pool_exec W es (init_pool links))
   \<and> (results_closed (pool_exec W es (init_pool links)) \<or> main_at (pool_exec W es (init_pool links)) = MCloseResults \<longrightarrow>
        length (workers (pool_exec W es (init_pool links))) = W
        \<and> (\<forall>w \<in> set (workers (pool_exec W es (init_pool links))). w = WExited)
        \<and> wg (pool_exec W es (init_pool links)) = 0
        \<and> (\<forall>wid b. worker_step wid b (pool_exec W es (init_pool links)) = None))"
proof -
  let ?s = "pool_exec W es (init_pool links)"
  have inv: "pool_inv W ?s" by (rule pool_reachable_inv)
  note D = pool_invD [OF inv]
  have 2: "results_closed ?s \<or> main_at ?s = MCloseResults \<longrightarrow>
        length (workers ?s) = W \<and> (\<forall>w \<in> set (workers ?s). w = WExited) \<and> wg ?s = 0
        \<and> (\<forall>wid b. worker_step wid b ?s = None)"
  proof
    assume c: "results_closed ?s \<or> main_at ?s = MCloseResults"
    then have aw: "after_wait (main_at ?s)" using D(6) by (cases "main_at ?s") auto
    note X = after_wait_all_exited [OF inv aw]
    have "\<forall>wid b. worker_step wid b ?s = None"
    proof (intro allI)
      fix wid b
      show "worker_step wid b ?s = None"
      proof (cases "1 \<le> wid \<and> wid - 1 < length (workers ?s)")
        case True
        then have "workers ?s ! (wid - 1) = WExited" using X(1) by simp
        then show ?thesis using True D(1) worker_step_at [of ?s wid b] by simp
      next
        case False
        then show ?thesis by (auto simp: worker_step_def)
      qed
    qed
    then show "length (workers ?s) = W \<and> (\<forall>w \<in> set (workers ?s). w = WExited) \<and> wg ?s = 0
        \<and> (\<forall>wid b. worker_step wid b ?s = None)"
      using X by blast
  qed
  from D(1) 2 show ?thesis by blast
qed

theorem results_closed_only_after_workers_exit_witness:
  "results_closed (pool_exec numWorkers sample_schedule (init_pool sample_links))
   \<and> \<not> panicked (pool_exec numWorkers sample_schedule (init_pool sample_links))
   \<and> workers (pool_exec numWorkers sample_schedule (init_pool sample_links))
       = [WExited, WExited, WExited, WExited]
   \<and> wg (pool_exec numWorkers sample_schedule (init_pool sample_links)) = 0
   \<and> worker_step 1 browser_ok (pool_exec numWorkers sample_schedule (init_pool sample_links)) = None"
proof -
  note T = results_closed_only_after_workers_exit [of numWorkers sample_schedule sample_links]
  have c: "results_closed (pool_exec numWorkers sample_schedule (init_pool sample_links))"
    and w: "workers (pool_exec numWorkers sample_schedule (init_pool sample_links))
       = [WExited, WExited, WExited, WExited]"
    by (simp_all add: sample_run)
  from T c have "wg (pool_exec numWorkers sample_schedule (init_pool sample_links)) = 0"
    and "worker_step 1 browser_ok (pool_exec numWorkers sample_schedule (init_pool sample_links)) = None"
    and "\<not> panicked (pool_exec numWorkers sample_schedule (init_pool sample_links))"
    by blast+
  with c w show ?thesis by blast
qed

text \<open>
  C5. In every reachable state of a pool over distinct links: a worker whose call of
  \<^verbatim>\<open>scrapeProductPage\<close> returns an error only appends the error line to the log and
  goes back to receiving from \<open>jobs\<close>; the channels, the wait group, the collected
  products, the main goroutine and the other workers stay as they are, and nothing
  panics. No URL is taken from \<open>jobs\<close> twice, and a failed URL is not on \<open>jobs\<close> again
  and has no record on \<open>results\<close> or in \<open>finalProducts\<close>. When the pool has finished,
  the URLs of the collected records and the failed URLs together are exactly the
  enqueued links: every job that did not fail has its record.
\<close>

theorem worker_failure_is_local:
  assumes s: "s = pool_exec W es (init_pool links)" and d: "distinct links"
  shows "(1 \<le> wid \<and> wid \<le> length (workers s) \<and> workers s ! (wid - 1) = WScrape url
          \<and> fst (snd (scrapeProductPage b url)) = Some e \<longrightarrow>
            pool_step W (WorkerStep wid b) s
              = Some (s\<lparr>log_lines := log_lines s @ [LogError wid url e],
                        workers := (workers s)[wid - 1 := WRange]\<rparr>))
       \<and> \<not> panicked s
       \<and> distinct (started (log_lines s))
       \<and> (\<forall>u \<in> set (failed (log_lines s)).
             u \<in> set (started (log_lines s)) \<and> u \<notin> set (jobs s)
             \<and> u \<notin> URL ` set (results s) \<and> u \<notin> URL ` set (finalProducts s))
       \<and> (0 < W \<and> main_at s = MDone \<longrightarrow>
             mset (map URL (finalProducts s)) + mset (failed (log_lines s))
               = mset (take (job_limit links) links))"
proof -
  have inv: "pool_inv W s" unfolding s by (rule pool_reachable_inv)
  have l: "productLinks s = links" unfolding s by (simp add: pool_exec_links init_pool_def)
  have d': "distinct (productLinks s)" using d l by simp
  note D = pool_invD [OF inv]
  have 1: "1 \<le> wid \<and> wid \<le> length (workers s) \<and> workers s ! (wid - 1) = WScrape url
          \<and> fst (snd (scrapeProductPage b url)) = Some e \<longrightarrow>
            pool_step W (WorkerStep wid b) s
              = Some (s\<lparr>log_lines := log_lines s @ [LogError wid url e],
                        workers := (workers s)[wid - 1 := WRange]\<rparr>)"
  proof
    assume a: "1 \<le> wid \<and> wid \<le> length (workers s) \<and> workers s ! (wid - 1) = WScrape url
          \<and> fst (snd (scrapeProductPage b url)) = Some e"
    then have i: "wid - 1 < length (workers s)" by auto
    obtain product performed where r: "scrapeProductPage b url = (product, Some e, performed)"
      using a by (cases "scrapeProductPage b url" rule: prod_cases3) auto
    have "worker_step wid b s = Some (s\<lparr>log_lines := log_lines s @ [LogError wid url e],
                        workers := (workers s)[wid - 1 := WRange]\<rparr>)"
      using worker_step_at [OF D(1) _ i, of b] a r by simp
    then show "pool_step W (WorkerStep wid b) s
              = Some (s\<lparr>log_lines := log_lines s @ [LogError wid url e],
                        workers := (workers s)[wid - 1 := WRange]\<rparr>)"
      by (simp add: pool_step_def)
  qed
  have 3: "distinct (started (log_lines s))" using started_distinct [OF inv d'] .
  have 4: "\<forall>u \<in> set (failed (log_lines s)).
             u \<in> set (started (log_lines s)) \<and> u \<notin> set (jobs s)
             \<and> u \<notin> URL ` set (results s) \<and> u \<notin> URL ` set (finalProducts s)"
    using failed_has_no_record [OF inv d'] by blast
  have 5: "0 < W \<and> main_at s = MDone \<longrightarrow>
             mset (map URL (finalProducts s)) + mset (failed (log_lines s))
               = mset (take (job_limit links) links)"
  proof
    assume a: "0 < W \<and> main_at s = MDone"
    then have dn: "main_at s = MDone" and W: "0 < W" by simp_all
    note P = pool_done [OF inv dn W]
    show "mset (map URL (finalProducts s)) + mset (failed (log_lines s))
               = mset (take (job_limit links) links)"
      using P(3) P(4) l by (simp add: ac_simps)
  qed
  from 1 D(1) 3 4 5 show ?thesis by blast
qed

text \<open>
  C1, as amended. For \<open>W \<ge> 1\<close> workers and a list of \<open>N\<close> distinct links, every run of
  the pool can be continued to its end, and never takes more than \<open>min N 250\<close> jobs; no
  record is collected twice. When the pool has finished, the jobs taken are exactly the
  first \<open>min N 250\<close> links, each once; the records collected and the failed jobs together
  number \<open>min N 250\<close>, so there are at most \<open>min N 250\<close> records, and fewer exactly when
  some job failed; the records have pairwise different URLs.
\<close>

theorem pool_processes_each_job_once:
  assumes s: "s = pool_exec W es (init_pool links)" and W: "0 < W" and d: "distinct links"
  shows "(\<exists>es'. main_at (pool_exec W (es @ es') (init_pool links)) = MDone)
       \<and> length (started (log_lines s)) \<le> min (length links) productTarget
       \<and> distinct (finalProducts s)
       \<and> (main_at s = MDone \<longrightarrow>
            started (log_lines s) = take (min (length links) productTarget) links
            \<and> length (started (log_lines s)) = min (length links) productTarget
            \<and> length (finalProducts s) + length (failed (log_lines s))
                = min (length links) productTarget
            \<and> length (finalProducts s) \<le> min (length links) productTarget
            \<and> (length (finalProducts s) < min (length links) productTarget)
                = (failed (log_lines s) \<noteq> [])
            \<and> distinct (map URL (finalProducts s)))"
proof -
  have inv: "pool_inv W s" unfolding s by (rule pool_reachable_inv)
  have l: "productLinks s = links" unfolding s by (simp add: pool_exec_links init_pool_def)
  have d': "distinct (productLinks s)" using d l by simp
  from pool_completes [OF inv] obtain es' where "main_at (pool_exec W es' s) = MDone" by blast
  then have 1: "\<exists>es'. main_at (pool_exec W (es @ es') (init_pool links)) = MDone"
    unfolding s pool_exec_append [symmetric] by blast
  have 2: "length (started (log_lines s)) \<le> min (length links) productTarget"
    using started_length_le [OF inv] l by (simp add: job_limit_def)
  note R = distinct_records [OF inv d']
  have 4: "main_at s = MDone \<longrightarrow>
            started (log_lines s) = take (min (length links) productTarget) links
            \<and> length (started (log_lines s)) = min (length links) productTarget
            \<and> length (finalProducts s) + length (failed (log_lines s))
                = min (length links) productTarget
            \<and> length (finalProducts s) \<le> min (length links) productTarget
            \<and> (length (finalProducts s) < min (length links) productTarget)
                = (failed (log_lines s) \<noteq> [])
            \<and> distinct (map URL (finalProducts s))"
  proof
    assume dn: "main_at s = MDone"
    note P = pool_done [OF inv dn W]
    have a: "started (log_lines s) = take (min (length links) productTarget) links"
      using P(3) l by (simp add: job_limit_def)
    then have b: "length (started (log_lines s)) = min (length links) productTarget"
      by simp
    have "size (mset (started (log_lines s)))
            = size (mset (failed (log_lines s)) + image_mset URL (mset (finalProducts s)))"
      using P(4) by simp
    then have c: "length (finalProducts s) + length (failed (log_lines s))
                = min (length links) productTarget"
      using b by simp
    then have e: "length (finalProducts s) \<le> min (length links) productTarget"
      by linarith
    have "(length (finalProducts s) < min (length links) productTarget)
                = (0 < length (failed (log_lines s)))"
      using c by linarith
    then have f: "(length (finalProducts s) < min (length links) productTarget)
                = (failed (log_lines s) \<noteq> [])"
      by simp
    from a b c e f R(1)
    show "started (log_lines s) = take (min (length links) productTarget) links
            \<and> length (started (log_lines s)) = min (length links) productTarget
            \<and> length (finalProducts s) + length (failed (log_lines s))
                = min (length links) productTarget
            \<and> length (finalProducts s) \<le> min (length links) productTarget
            \<and> (length (finalProducts s) < min (length links) productTarget)
                = (failed (log_lines s) \<noteq> [])
            \<and> distinct (map URL (finalProducts s))"
      by blast
  qed
  from 1 2 R(2) 4 show ?thesis by blast
qed

lemma sample_prefix_run:
  "pool_exec numWorkers (take 16 sample_schedule) (init_pool sample_links) =
     \<lparr>productLinks = sample_links, main_at = MWait,
      workers = [WSend (fst (scrapeProductPage browser_ok ''https://shop.adidas.jp/products/A1/'')),
                 WScrape ''https://shop.adidas.jp/products/B2/'', WRange, WRange],
      jobs = [], jobs_closed = True,
      results = [], results_closed = False, wg = 4,
      finalProducts = [],
      log_lines = [LogScraping 1 ''https://shop.adidas.jp/products/A1/'',
                   LogSuccess 1 ''https://shop.adidas.jp/products/A1/'' ''text'',
                   LogScraping 2 ''https://shop.adidas.jp/products/B2/''],
      panicked = False\<rparr>"
  by (simp add: sample_schedule_def sample_links_def init_pool_def numWorkers_def
      pool_step_def main_step_def worker_step_def productTarget_def eval_nat_numeral
      scrapeProductPage_def tasks_def browser_ok_def Let_def no_dest_def)

lemma sample_failure:
  "fst (snd (scrapeProductPage browser_not_ready ''https://shop.adidas.jp/products/B2/''))
     = Some ''browser actions failed: context deadline exceeded''"
  by (simp add: scrapeProductPage_def tasks_def browser_not_ready_def Let_def)

theorem worker_failure_is_local_witness:
  "distinct sample_links
   \<and> workers (pool_exec numWorkers (take 16 sample_schedule) (init_pool sample_links)) ! (2 - 1)
       = WScrape ''https://shop.adidas.jp/products/B2/''
   \<and> fst (snd (scrapeProductPage browser_not_ready ''https://shop.adidas.jp/products/B2/''))
       = Some ''browser actions failed: context deadline exceeded''
   \<and> pool_step numWorkers (WorkerStep 2 browser_not_ready)
         (pool_exec numWorkers (take 16 sample_schedule) (init_pool sample_links))
       = Some ((pool_exec numWorkers (take 16 sample_schedule) (init_pool sample_links))
           \<lparr>log_lines := log_lines (pool_exec numWorkers (take 16 sample_schedule)
                                       (init_pool sample_links))
                @ [LogError 2 ''https://shop.adidas.jp/products/B2/''
                     ''browser actions failed: context deadline exceeded''],
            workers := (workers (pool_exec numWorkers (take 16 sample_schedule)
                                   (init_pool sample_links)))[2 - 1 := WRange]\<rparr>)"
proof -
  let ?s = "pool_exec numWorkers (take 16 sample_schedule) (init_pool sample_links)"
  have d: "distinct sample_links" by (simp add: sample_links_def)
  have w: "1 \<le> (2::nat) \<and> 2 \<le> length (workers ?s)
      \<and> workers ?s ! (2 - 1) = WScrape ''https://shop.adidas.jp/products/B2/''"
    by (simp add: sample_prefix_run)
  note T = worker_failure_is_local [OF refl d, of 2 numWorkers "take 16 sample_schedule"
      "''https://shop.adidas.jp/products/B2/''" browser_not_ready
      "''browser actions failed: context deadline exceeded''"]
  from T w sample_failure
  have "pool_step numWorkers (WorkerStep 2 browser_not_ready) ?s
       = Some (?s\<lparr>log_lines := log_lines ?s
                @ [LogError 2 ''https://shop.adidas.jp/products/B2/''
                     ''browser actions failed: context deadline exceeded''],
            workers := (workers ?s)[2 - 1 := WRange]\<rparr>)"
    by blast
  with d w sample_failure show ?thesis by blast
qed

theorem pool_processes_each_job_once_witness:
  "0 < numWorkers \<and> distinct sample_links
   \<and> main_at (pool_exec numWorkers sample_schedule (init_pool sample_links)) = MDone
   \<and> started (log_lines (pool_exec numWorkers sample_schedule (init_pool sample_links)))
       = sample_links
   \<and> length (finalProducts (pool_exec numWorkers sample_schedule (init_pool sample_links))) = 1
   \<and> failed (log_lines (pool_exec numWorkers sample_schedule (init_pool sample_links)))
       = [''https://shop.adidas.jp/products/B2/'']
   \<and> distinct (finalProducts (pool_exec numWorkers sample_schedule (init_pool sample_links)))
   \<and> length (finalProducts (pool_exec numWorkers sample_schedule (init_pool sample_links)))
       < min (length sample_links) productTarget"
proof -
  let ?s = "pool_exec numWorkers sample_schedule (init_pool sample_links)"
  have W: "0 < numWorkers" by (simp add: numWorkers_def)
  have d: "distinct sample_links" by (simp add: sample_links_def)
  have dn: "main_at ?s = MDone" by (simp add: sample_run)
  have f: "failed (log_lines ?s) = [''https://shop.adidas.jp/products/B2/'']"
    by (simp add: sample_run failed_def)
  have n: "length (finalProducts ?s) = 1" by (simp add: sample_run)
  have m: "min (length sample_links) productTarget = 2"
    by (simp add: sample_links_def productTarget_def)
  note T = pool_processes_each_job_once [OF refl W d, of sample_schedule]
  from T dn have a: "started (log_lines ?s) = take (min (length sample_links) productTarget) sample_links"
    and b: "distinct (finalProducts ?s)"
    and c: "(length (finalProducts ?s) < min (length sample_links) productTarget)
              = (failed (log_lines ?s) \<noteq> [])"
    by blast+
  have a': "started (log_lines ?s) = sample_links" using a m by (simp add: sample_links_def)
  have c': "length (finalProducts ?s) < min (length sample_links) productTarget"
    using c f by simp
  from W d dn a' n f b c' show ?thesis by blast
qed

text \<open>
  The claim as stated fails for more than 250 links: with 251 distinct links the main
  goroutine closes \<open>jobs\<close> after enqueueing 250 of them (the last link is never
  enqueued), and no schedule takes more than 250 jobs.
\<close>

theorem pool_stops_at_productTarget:
  "length (many_links 251) = 251
   \<and> distinct (many_links 251)
   \<and> jobs_closed (pool_exec numWorkers (replicate 261 MainStep) (init_pool (many_links 251)))
   \<and> length (jobs (pool_exec numWorkers (replicate 261 MainStep) (init_pool (many_links 251))))
       = 250
   \<and> many_links 251 ! 250
       \<notin> set (jobs (pool_exec numWorkers (replicate 261 MainStep) (init_pool (many_links 251))))
   \<and> (\<forall>es. length (started (log_lines (pool_exec numWorkers es (init_pool (many_links 251)))))
          \<le> 250)"
proof -
  let ?l = "many_links 251"
  let ?s = "pool_exec numWorkers (replicate 261 MainStep) (init_pool ?l)"
  have n: "length ?l = 251" by (rule many_links_length)
  have d: "distinct ?l" by (rule many_links_distinct)
  have "productTarget < length ?l" using n by (simp add: productTarget_def)
  note R = main_only_run [OF this]
  have c: "jobs_closed ?s" unfolding R by simp
  have j: "jobs ?s = take 250 ?l" unfolding R by (simp add: productTarget_def)
  then have len: "length (jobs ?s) = 250" using n by simp
  have "?l ! 250 \<notin> set (take 250 ?l)"
  proof
    assume "?l ! 250 \<in> set (take 250 ?l)"
    then obtain i where i: "i < 250" "take 250 ?l ! i = ?l ! 250"
      using n by (auto simp: in_set_conv_nth)
    then have "?l ! i = ?l ! 250" by simp
    then have "i = 250" using d n i(1) by (simp add: nth_eq_iff_index_eq)
    then show False using i(1) by simp
  qed
  then have nm: "?l ! 250 \<notin> set (jobs ?s)" using j by simp
  have all: "\<forall>es. length (started (log_lines (pool_exec numWorkers es (init_pool ?l)))) \<le> 250"
  proof
    fix es
    have inv: "pool_inv numWorkers (pool_exec numWorkers es (init_pool ?l))"
      by (rule pool_reachable_inv)
    have "productLinks (pool_exec numWorkers es (init_pool ?l)) = ?l"
      by (simp add: pool_exec_links init_pool_def)
    then show "length (started (log_lines (pool_exec numWorkers es (init_pool ?l)))) \<le> 250"
      using started_length_le [OF inv] n by (simp add: job_limit_def productTarget_def)
  qed
  from n d c len nm all show ?thesis by blast
qed

end
